theory Spec2Isabelle
  imports Complex_Main

begin

section \<open>Values, callbacks and requests\<close>

text \<open>
  The module \<^verbatim>\<open>src/index.ts\<close> keeps five module-level variables (two default callbacks,
  the loader registry, the resource cache and the queue of pending requests) and exposes
  functions that read and write them. The embedding passes these variables around as a
  record. Paths are strings. Loader classes, loader instances and callback functions are
  compared by identity only, so each is a natural number naming the object.

  Three things lie outside the module and are fixed as follows.
  \<^item> A callback handed in by the caller is an observer: calling it appends an event to a
    trace and does not call back into the module before it returns.
  \<^item> A loader is asynchronous: \<^verbatim>\<open>loader.load\<close> returns before it calls either closure, and
    it calls exactly one of them, once. Its constructor returns normally.
  \<^item> The ratio given to a progress callback is a rational number instead of a double.
\<close>

type_synonym path = string

type_synonym loader_type = nat

type_synonym loader = nat

type_synonym callback = nat

text \<open>The values a cache entry or a promise can hold: \<^verbatim>\<open>undefined\<close>, \<^verbatim>\<open>null\<close> (the
  in-progress placeholder), an opaque loaded object, or an array.\<close>

datatype jsval = Undefined | Null | Obj nat | Arr "jsval list"

text \<open>The number handed to a progress callback. It is the quotient of two counters;
  a quotient by zero is not a rational number in JavaScript.\<close>

datatype jsnum = Num rat | PosInfinity | NaN

definition js_div :: "nat \<Rightarrow> nat \<Rightarrow> jsnum" where
  "js_div a b = (if b = 0 then (if a = 0 then NaN else PosInfinity)
                 else Num (of_nat a / of_nat b))"

text \<open>An element of \<^verbatim>\<open>Resource.paths\<close>: a bare string or a \<^verbatim>\<open>{path, onLoad}\<close> object.\<close>

datatype resource_config = Path path | Config path "callback option"

text \<open>\<^verbatim>\<open>(res as ResourceConfig).path ?? res as string\<close> and \<^verbatim>\<open>(res as ResourceConfig).onLoad\<close>\<close>

fun path_of :: "resource_config \<Rightarrow> path" where
  "path_of (Path p) = p"
| "path_of (Config p f) = p"

fun onLoad_of :: "resource_config \<Rightarrow> callback option" where
  "onLoad_of (Path p) = None"
| "onLoad_of (Config p f) = f"

record resource =
  loader :: loader_type
  paths :: "resource_config list"

record loading_config =
  onProgress :: "callback option"
  onError :: "callback option"

section \<open>Promises, outstanding loader calls and the observable trace\<close>

datatype promise_state = Pending | Fulfilled jsval | Rejected jsval

text \<open>
  A call of \<^verbatim>\<open>loader.load(path, onSuccess, onProgress, onError)\<close> hands two closures to the
  loader. \<open>LoadK pr p onerror\<close> stands for the pair built in \<^verbatim>\<open>load\<close> (promise \<open>pr\<close>),
  \<open>BatchK b i p onload\<close> for the pair built in \<^verbatim>\<open>_createPromise\<close> during the
  \<open>b\<close>-th call of \<^verbatim>\<open>loadPending\<close>, whose promise is element \<open>i\<close> of that call's
  \<^verbatim>\<open>promises\<close> array.
\<close>

datatype continuation =
    LoadK nat path "callback option"
  | BatchK nat nat path "callback option"

datatype promise_ref = LoadP nat | AllP nat

datatype event =
    Constructed loader_type loader
  | LoaderLoad loader path "callback option" nat
  | OnProgress nat callback jsnum
  | OnLoad path callback jsval
  | OnError callback jsval
  | Settled promise_ref jsval

text \<open>The variables one call of \<^verbatim>\<open>loadPending\<close> closes over, and the promise it returns.\<close>

record batch =
  b_total :: nat
  b_progress :: nat
  b_onProgress :: "callback option"
  b_onError :: "callback option"
  b_promises :: "promise_state list"
  b_all :: promise_state

record state =
  onProgress_default :: "callback option"
  onError_default :: "callback option"
  loaders :: "loader_type \<rightharpoonup> loader"
  resources :: "path \<rightharpoonup> jsval"
  pending :: "resource list"
  next_loader :: nat
  inflight :: "continuation option list"
  load_promises :: "promise_state list"
  batches :: "batch list"
  trace :: "event list"

definition init :: state where
  "init = \<lparr>onProgress_default = None, onError_default = None, loaders = Map.empty,
           resources = Map.empty, pending = [], next_loader = 0, inflight = [],
           load_promises = [], batches = [], trace = []\<rparr>"

definition emit :: "event \<Rightarrow> state \<Rightarrow> state" where
  "emit e s = s\<lparr>trace := trace s @ [e]\<rparr>"

text \<open>Calling an optional callback: \<^verbatim>\<open>if (f) f(x)\<close>.\<close>

definition call_opt :: "callback option \<Rightarrow> (callback \<Rightarrow> event) \<Rightarrow> state \<Rightarrow> state" where
  "call_opt f ev s = (case f of None \<Rightarrow> s | Some g \<Rightarrow> emit (ev g) s)"

section \<open>The resource cache and the loader registry\<close>

definition add :: "path \<Rightarrow> jsval \<Rightarrow> state \<Rightarrow> state" where
  "add p v s = s\<lparr>resources := (resources s)(p \<mapsto> v)\<rparr>"

definition get :: "path \<Rightarrow> state \<Rightarrow> jsval" where
  "get p s = (case resources s p of None \<Rightarrow> Undefined | Some v \<Rightarrow> v)"

fun remove :: "path list \<Rightarrow> state \<Rightarrow> state" where
  "remove [] s = s"
| "remove (p # ps) s = remove ps (s\<lparr>resources := (resources s)(p := None)\<rparr>)"

definition getLoader :: "loader_type \<Rightarrow> state \<Rightarrow> loader \<times> state" where
  "getLoader T s =
     (case loaders s T of
        Some l \<Rightarrow> (l, s)
      | None \<Rightarrow>
          (next_loader s,
           emit (Constructed T (next_loader s))
             (s\<lparr>loaders := (loaders s)(T \<mapsto> next_loader s),
                next_loader := Suc (next_loader s)\<rparr>)))"

definition removeLoader :: "loader_type \<Rightarrow> state \<Rightarrow> state" where
  "removeLoader T s = s\<lparr>loaders := (loaders s)(T := None)\<rparr>"

definition setOnProgressDefault :: "callback option \<Rightarrow> state \<Rightarrow> state" where
  "setOnProgressDefault f s = s\<lparr>onProgress_default := f\<rparr>"

definition setOnErrorDefault :: "callback option \<Rightarrow> state \<Rightarrow> state" where
  "setOnErrorDefault f s = s\<lparr>onError_default := f\<rparr>"

section \<open>The loader collaborator\<close>

text \<open>
  \<^verbatim>\<open>loader.load\<close> belongs to the loader library. It returns at once and calls exactly one
  of its two completion closures later, once. Here the call records the closures as an
  outstanding entry; the later completion is a separate step of the system.
\<close>

definition call_loader ::
  "loader \<Rightarrow> path \<Rightarrow> callback option \<Rightarrow> continuation \<Rightarrow> state \<Rightarrow> state" where
  "call_loader l p onprogress k s =
     emit (LoaderLoad l p onprogress (length (inflight s)))
       (s\<lparr>inflight := inflight s @ [Some k]\<rparr>)"

section \<open>Immediate load\<close>

text \<open>\<^verbatim>\<open>resolve(v)\<close> of the promise made in \<^verbatim>\<open>load\<close>; a settled promise stays as it is.\<close>

definition resolve_load :: "nat \<Rightarrow> jsval \<Rightarrow> state \<Rightarrow> state" where
  "resolve_load pr v s =
     (if pr < length (load_promises s) \<and> load_promises s ! pr = Pending
      then emit (Settled (LoadP pr) v)
             (s\<lparr>load_promises := (load_promises s)[pr := Fulfilled v]\<rparr>)
      else s)"

definition load ::
  "loader_type \<Rightarrow> path \<Rightarrow> callback option \<Rightarrow> callback option \<Rightarrow> state \<Rightarrow> nat \<times> state" where
  "load T p onprogress onerror s =
     (let pr = length (load_promises s);
          s0 = s\<lparr>load_promises := load_promises s @ [Pending]\<rparr>
      in case resources s0 p of
           Some v \<Rightarrow> (pr, resolve_load pr v s0)
         | None \<Rightarrow>
             (let s1 = s0\<lparr>resources := (resources s0)(p \<mapsto> Null)\<rparr>;
                  (l, s2) = getLoader T s1
              in (pr, call_loader l p onprogress (LoadK pr p onerror) s2)))"

section \<open>The pending queue and the batch drain\<close>

definition preload :: "loader_type \<Rightarrow> resource_config list \<Rightarrow> state \<Rightarrow> state" where
  "preload T rs s = s\<lparr>pending := pending s @ [\<lparr>loader = T, paths = rs\<rparr>]\<rparr>"

text \<open>\<^verbatim>\<open>_createPromise\<close>: the placeholder is stored, the loader is called, the new promise
  is returned. The promise will be element \<open>i\<close> of the \<^verbatim>\<open>promises\<close> array.\<close>

definition createPromise ::
  "nat \<Rightarrow> nat \<Rightarrow> loader \<Rightarrow> path \<Rightarrow> callback option \<Rightarrow> state \<Rightarrow> promise_state \<times> state" where
  "createPromise b i l p onload s =
     (Pending,
      call_loader l p None (BatchK b i p onload) (s\<lparr>resources := (resources s)(p \<mapsto> Null)\<rparr>))"

text \<open>The body of the \<^verbatim>\<open>for\<close> loop of \<^verbatim>\<open>_load\<close>.\<close>

fun load_entry :: "nat \<Rightarrow> loader \<Rightarrow> resource_config \<Rightarrow> batch \<times> state \<Rightarrow> batch \<times> state" where
  "load_entry b l res (B, s) =
     (let p = path_of res; onload = onLoad_of res
      in case resources s p of
           Some v \<Rightarrow> (B, call_opt onload (\<lambda>f. OnLoad p f v) s)
         | None \<Rightarrow>
             (let (pr, s') = createPromise b (length (b_promises B)) l p onload s
              in (B\<lparr>b_promises := b_promises B @ [pr], b_total := Suc (b_total B)\<rparr>, s')))"

fun load_paths ::
  "nat \<Rightarrow> loader \<Rightarrow> resource_config list \<Rightarrow> batch \<times> state \<Rightarrow> batch \<times> state" where
  "load_paths b l [] acc = acc"
| "load_paths b l (res # rest) acc = load_paths b l rest (load_entry b l res acc)"

text \<open>\<^verbatim>\<open>_load(resource)\<close>\<close>

fun load_resource :: "nat \<Rightarrow> resource \<Rightarrow> batch \<times> state \<Rightarrow> batch \<times> state" where
  "load_resource b r (B, s) =
     (let (l, s1) = getLoader (loader r) s in load_paths b l (paths r) (B, s1))"

text \<open>The loop \<^verbatim>\<open>while ((resource = _pending.pop())) _load(resource)\<close>. Every element of
  the queue is an object, so the loop stops exactly when the queue is empty.\<close>

function drain :: "nat \<Rightarrow> batch \<times> state \<Rightarrow> batch \<times> state" where
  "drain b (B, s) =
     (if pending s = [] then (B, s)
      else drain b (load_resource b (last (pending s))
                      (B, s\<lparr>pending := butlast (pending s)\<rparr>)))"
  by pat_completeness auto

termination
proof (relation "measure (\<lambda>(b, B, s). length (pending s))")
  show "wf (measure (\<lambda>(b, B, s). length (pending s)))"
    by simp
next
  fix b :: nat and B :: batch and s :: state
  assume ne: "pending s \<noteq> []"
  have entry: "pending (snd (load_entry b l res acc)) = pending (snd acc)" for l res acc
    by (cases acc)
       (simp add: createPromise_def call_loader_def call_opt_def emit_def Let_def
          split: option.split)
  have paths: "pending (snd (load_paths b l rs acc)) = pending (snd acc)" for l rs acc
    by (induction rs arbitrary: acc) (simp_all add: entry)
  have loader: "pending (snd (getLoader T s0)) = pending s0" for T s0
    by (simp add: getLoader_def emit_def split: option.split)
  let ?s0 = "s\<lparr>pending := butlast (pending s)\<rparr>"
  obtain l s1 where g: "getLoader (loader (last (pending s))) ?s0 = (l, s1)"
    by (cases "getLoader (loader (last (pending s))) ?s0")
  have "pending s1 = butlast (pending s)"
    using loader [of "loader (last (pending s))" ?s0] g by simp
  then have "pending (snd (load_resource b (last (pending s)) (B, ?s0))) = butlast (pending s)"
    using g by (simp add: paths)
  with ne
  show "((b, load_resource b (last (pending s)) (B, s\<lparr>pending := butlast (pending s)\<rparr>)),
         (b, B, s)) \<in> measure (\<lambda>(b, B, s). length (pending s))"
    by (cases "load_resource b (last (pending s)) (B, s\<lparr>pending := butlast (pending s)\<rparr>)")
       simp
qed

text \<open>\<^verbatim>\<open>Promise.all(promises)\<close>: the returned promise is fulfilled with the array of the
  elements' values as soon as every element is fulfilled (at once for an empty array).\<close>

fun is_fulfilled :: "promise_state \<Rightarrow> bool" where
  "is_fulfilled (Fulfilled v) = True"
| "is_fulfilled Pending = False"
| "is_fulfilled (Rejected v) = False"

fun value_of :: "promise_state \<Rightarrow> jsval" where
  "value_of (Fulfilled v) = v"
| "value_of Pending = Undefined"
| "value_of (Rejected v) = v"

definition promise_all :: "nat \<Rightarrow> state \<Rightarrow> state" where
  "promise_all b s =
     (if b < length (batches s) then
        (let B = batches s ! b
         in if b_all B = Pending \<and> list_all is_fulfilled (b_promises B)
            then emit (Settled (AllP b) (Arr (map value_of (b_promises B))))
                   (s\<lparr>batches := (batches s)
                        [b := B\<lparr>b_all := Fulfilled (Arr (map value_of (b_promises B)))\<rparr>]\<rparr>)
            else s)
      else s)"

definition loadPending :: "loading_config \<Rightarrow> state \<Rightarrow> nat \<times> state" where
  "loadPending config s =
     (let b = length (batches s);
          B0 = \<lparr>b_total = 0, b_progress = 0,
                b_onProgress = (case onProgress config of
                                  Some f \<Rightarrow> Some f | None \<Rightarrow> onProgress_default s),
                b_onError = (case onError config of
                               Some f \<Rightarrow> Some f | None \<Rightarrow> onError_default s),
                b_promises = [], b_all = Pending\<rparr>;
          (B, s1) = drain b (B0, s)
      in (b, promise_all b (s1\<lparr>batches := batches s1 @ [B]\<rparr>)))"

section \<open>Completion of a loader call\<close>

text \<open>\<^verbatim>\<open>if (onProgress) onProgress(++progress / total)\<close>\<close>

definition report_progress :: "nat \<Rightarrow> state \<Rightarrow> state" where
  "report_progress b s =
     (if b < length (batches s) then
        (let B = batches s ! b
         in case b_onProgress B of
              None \<Rightarrow> s
            | Some f \<Rightarrow>
                emit (OnProgress b f (js_div (Suc (b_progress B)) (b_total B)))
                  (s\<lparr>batches := (batches s)[b := B\<lparr>b_progress := Suc (b_progress B)\<rparr>]\<rparr>))
      else s)"

text \<open>\<^verbatim>\<open>if (onError) onError(e)\<close> inside \<^verbatim>\<open>loadPending\<close>\<close>

definition report_error :: "nat \<Rightarrow> jsval \<Rightarrow> state \<Rightarrow> state" where
  "report_error b e s =
     (if b < length (batches s)
      then call_opt (b_onError (batches s ! b)) (\<lambda>f. OnError f e) s
      else s)"

text \<open>\<^verbatim>\<open>resolve()\<close> of element \<open>i\<close> of the \<^verbatim>\<open>promises\<close> array, followed by the reaction
  of \<^verbatim>\<open>Promise.all\<close>.\<close>

definition resolve_op :: "nat \<Rightarrow> nat \<Rightarrow> state \<Rightarrow> state" where
  "resolve_op b i s =
     (if b < length (batches s) then
        (let B = batches s ! b
         in if i < length (b_promises B) \<and> b_promises B ! i = Pending
            then promise_all b
                   (s\<lparr>batches := (batches s)
                        [b := B\<lparr>b_promises := (b_promises B)[i := Fulfilled Undefined]\<rparr>]\<rparr>)
            else s)
      else s)"

fun on_success :: "continuation \<Rightarrow> jsval \<Rightarrow> state \<Rightarrow> state" where
  "on_success (LoadK pr p onerror) result s =
     resolve_load pr result (s\<lparr>resources := (resources s)(p \<mapsto> result)\<rparr>)"
| "on_success (BatchK b i p onload) result s =
     (let s1 = s\<lparr>resources := (resources s)(p \<mapsto> result)\<rparr>;
          s2 = report_progress b s1;
          s3 = call_opt onload (\<lambda>f. OnLoad p f result) s2
      in resolve_op b i s3)"

fun on_error :: "continuation \<Rightarrow> jsval \<Rightarrow> state \<Rightarrow> state" where
  "on_error (LoadK pr p onerror) e s =
     (let s1 = s\<lparr>resources := (resources s)(p := None)\<rparr>;
          s2 = call_opt onerror (\<lambda>f. OnError f e) s1
      in resolve_load pr Undefined s2)"
| "on_error (BatchK b i p onload) e s =
     (let s1 = s\<lparr>resources := (resources s)(p := None)\<rparr>;
          s2 = report_error b e s1;
          s3 = report_progress b s2
      in resolve_op b i s3)"

text \<open>The loader finishes call number \<open>k\<close>. A loader calls back once per call, so a
  completion for a call that has already been answered changes nothing.\<close>

definition loader_success :: "nat \<Rightarrow> jsval \<Rightarrow> state \<Rightarrow> state" where
  "loader_success k result s =
     (if k < length (inflight s) then
        (case inflight s ! k of
           Some c \<Rightarrow> on_success c result (s\<lparr>inflight := (inflight s)[k := None]\<rparr>)
         | None \<Rightarrow> s)
      else s)"

definition loader_error :: "nat \<Rightarrow> jsval \<Rightarrow> state \<Rightarrow> state" where
  "loader_error k e s =
     (if k < length (inflight s) then
        (case inflight s ! k of
           Some c \<Rightarrow> on_error c e (s\<lparr>inflight := (inflight s)[k := None]\<rparr>)
         | None \<Rightarrow> s)
      else s)"

section \<open>Runs of the system\<close>

datatype action =
    Add path jsval
  | Remove "path list"
  | GetLoader loader_type
  | RemoveLoader loader_type
  | SetOnProgressDefault "callback option"
  | SetOnErrorDefault "callback option"
  | Load loader_type path "callback option" "callback option"
  | Preload loader_type "resource_config list"
  | LoadPending loading_config
  | Success nat jsval
  | Failure nat jsval

fun step :: "action \<Rightarrow> state \<Rightarrow> state" where
  "step (Add p v) s = add p v s"
| "step (Remove ps) s = remove ps s"
| "step (GetLoader T) s = snd (getLoader T s)"
| "step (RemoveLoader T) s = removeLoader T s"
| "step (SetOnProgressDefault f) s = setOnProgressDefault f s"
| "step (SetOnErrorDefault f) s = setOnErrorDefault f s"
| "step (Load T p onprogress onerror) s = snd (load T p onprogress onerror s)"
| "step (Preload T rs) s = preload T rs s"
| "step (LoadPending config) s = snd (loadPending config s)"
| "step (Success k result) s = loader_success k result s"
| "step (Failure k e) s = loader_error k e s"

fun run :: "action list \<Rightarrow> state \<Rightarrow> state" where
  "run [] s = s"
| "run (a # as) s = run as (step a s)"

inductive reachable :: "state \<Rightarrow> bool" where
  reachable_init: "reachable init"
| reachable_step: "reachable s \<Longrightarrow> reachable (step a s)"

section \<open>Notions used in the statements and proofs\<close>

text \<open>
  The trace is read through projections: the paths handed to the loaders, the calls of
  the progress callback made for one batch, the calls of an \<^verbatim>\<open>onLoad\<close> callback for one
  path, the calls of error callbacks, the settlements of one promise and the loader
  instances constructed for one type. The outstanding loader calls are read through
  \<open>waiting\<close> (the elements of one batch that still wait for their loader) and
  \<open>load_waiting\<close> (the promises of \<^verbatim>\<open>load\<close> that still wait).

  \<open>drained s\<close> lists the entries of the queue in the order in which the drain meets them
  (last request first). \<open>fresh_paths m ps\<close> keeps, from \<open>ps\<close>, the first occurrence of
  every path that is not a key of \<open>m\<close>; \<open>mark m ps\<close> is \<open>m\<close> with the placeholder stored
  for these paths; \<open>onloads p es\<close> lists the \<^verbatim>\<open>onLoad\<close> callbacks of the entries for \<open>p\<close>.

  \<open>inv\<close> is the invariant of the reachable states. It ties the promises of every batch
  to its outstanding loader calls, its progress counter to the progress calls in the
  trace, and the returned promise to the settlement in the trace. \<open>reg_grow\<close> and
  \<open>reg_keep\<close> say how the registry may change from one state to a later one.
\<close>

fun loader_call :: "event \<Rightarrow> path option" where
  "loader_call (LoaderLoad l p f k) = Some p"
| "loader_call (Constructed T l) = None"
| "loader_call (OnProgress b f r) = None"
| "loader_call (OnLoad p f v) = None"
| "loader_call (OnError f e) = None"
| "loader_call (Settled r v) = None"

definition loader_calls :: "event list \<Rightarrow> path list" where
  "loader_calls tr = List.map_filter loader_call tr"

fun fresh_paths :: "(path \<rightharpoonup> jsval) \<Rightarrow> path list \<Rightarrow> path list" where
  "fresh_paths m [] = []"
| "fresh_paths m (p # ps) =
     (case m p of Some v \<Rightarrow> fresh_paths m ps | None \<Rightarrow> p # fresh_paths (m(p \<mapsto> Null)) ps)"

definition drained :: "state \<Rightarrow> resource_config list" where
  "drained s = concat (map paths (rev (pending s)))"

fun progress_call :: "nat \<Rightarrow> event \<Rightarrow> (callback \<times> jsnum) option" where
  "progress_call b (OnProgress c f r) = (if c = b then Some (f, r) else None)"
| "progress_call b _ = None"

definition progress_calls :: "nat \<Rightarrow> event list \<Rightarrow> (callback \<times> jsnum) list" where
  "progress_calls b tr = List.map_filter (progress_call b) tr"

fun onload_call :: "path \<Rightarrow> event \<Rightarrow> (callback \<times> jsval) option" where
  "onload_call p (OnLoad q f v) = (if q = p then Some (f, v) else None)"
| "onload_call p _ = None"

definition onload_calls :: "path \<Rightarrow> event list \<Rightarrow> (callback \<times> jsval) list" where
  "onload_calls p tr = List.map_filter (onload_call p) tr"

fun error_call :: "event \<Rightarrow> (callback \<times> jsval) option" where
  "error_call (OnError f e) = Some (f, e)"
| "error_call _ = None"

definition error_calls :: "event list \<Rightarrow> (callback \<times> jsval) list" where
  "error_calls tr = List.map_filter error_call tr"

fun settle_of :: "promise_ref \<Rightarrow> event \<Rightarrow> jsval option" where
  "settle_of r (Settled r' v) = (if r' = r then Some v else None)"
| "settle_of r _ = None"

definition settled :: "promise_ref \<Rightarrow> event list \<Rightarrow> jsval list" where
  "settled r tr = List.map_filter (settle_of r) tr"

fun batch_index :: "nat \<Rightarrow> continuation option \<Rightarrow> nat option" where
  "batch_index b (Some (BatchK c i p f)) = (if c = b then Some i else None)"
| "batch_index b _ = None"

definition waiting :: "nat \<Rightarrow> continuation option list \<Rightarrow> nat list" where
  "waiting b xs = List.map_filter (batch_index b) xs"

fun load_index :: "continuation option \<Rightarrow> nat option" where
  "load_index (Some (LoadK pr p f)) = Some pr"
| "load_index _ = None"

definition load_waiting :: "continuation option list \<Rightarrow> nat list" where
  "load_waiting xs = List.map_filter load_index xs"

definition pending_idx :: "promise_state list \<Rightarrow> nat list" where
  "pending_idx ps = filter (\<lambda>i. ps ! i = Pending) [0..<length ps]"

definition drain_frame :: "nat \<Rightarrow> batch \<times> state \<Rightarrow> batch \<times> state \<Rightarrow> bool" where
  "drain_frame b x y =
     (error_calls (trace (snd y)) = error_calls (trace (snd x))
      \<and> (\<forall>c. progress_calls c (trace (snd y)) = progress_calls c (trace (snd x)))
      \<and> (\<forall>r. settled r (trace (snd y)) = settled r (trace (snd x)))
      \<and> load_promises (snd y) = load_promises (snd x)
      \<and> batches (snd y) = batches (snd x)
      \<and> onProgress_default (snd y) = onProgress_default (snd x)
      \<and> onError_default (snd y) = onError_default (snd x)
      \<and> load_waiting (inflight (snd y)) = load_waiting (inflight (snd x))
      \<and> (\<forall>c. c \<noteq> b \<longrightarrow> waiting c (inflight (snd y)) = waiting c (inflight (snd x)))
      \<and> length (b_promises (fst x)) \<le> length (b_promises (fst y))
      \<and> waiting b (inflight (snd y)) =
          waiting b (inflight (snd x)) @ [length (b_promises (fst x))..<length (b_promises (fst y))]
      \<and> b_progress (fst y) = b_progress (fst x)
      \<and> b_onProgress (fst y) = b_onProgress (fst x)
      \<and> b_onError (fst y) = b_onError (fst x)
      \<and> b_all (fst y) = b_all (fst x))"

fun mark :: "(path \<rightharpoonup> jsval) \<Rightarrow> path list \<Rightarrow> (path \<rightharpoonup> jsval)" where
  "mark m [] = m"
| "mark m (p # ps) = mark (case m p of None \<Rightarrow> m(p \<mapsto> Null) | Some v \<Rightarrow> m) ps"

definition onloads :: "path \<Rightarrow> resource_config list \<Rightarrow> callback list" where
  "onloads p es = List.map_filter (\<lambda>e. if path_of e = p then onLoad_of e else None) es"

definition processed ::
  "nat \<Rightarrow> resource_config list \<Rightarrow> batch \<times> state \<Rightarrow> batch \<times> state \<Rightarrow> bool" where
  "processed b es x y =
     (resources (snd y) = mark (resources (snd x)) (map path_of es)
      \<and> loader_calls (trace (snd y)) =
          loader_calls (trace (snd x)) @ fresh_paths (resources (snd x)) (map path_of es)
      \<and> b_total (fst y) =
          b_total (fst x) + length (fresh_paths (resources (snd x)) (map path_of es))
      \<and> b_promises (fst y) =
          b_promises (fst x)
          @ replicate (length (fresh_paths (resources (snd x)) (map path_of es))) Pending
      \<and> (\<forall>p v. resources (snd x) p = Some v \<longrightarrow>
            onload_calls p (trace (snd y)) =
            onload_calls p (trace (snd x)) @ map (\<lambda>f. (f, v)) (onloads p es)))"

definition batch0 :: "loading_config \<Rightarrow> state \<Rightarrow> batch" where
  "batch0 config s =
     \<lparr>b_total = 0, b_progress = 0,
      b_onProgress = (case onProgress config of Some f \<Rightarrow> Some f | None \<Rightarrow> onProgress_default s),
      b_onError = (case onError config of Some f \<Rightarrow> Some f | None \<Rightarrow> onError_default s),
      b_promises = [], b_all = Pending\<rparr>"

definition fresh :: "state \<Rightarrow> path list" where
  "fresh s = fresh_paths (resources s) (map path_of (drained s))"

definition new_batch :: "loading_config \<Rightarrow> state \<Rightarrow> batch" where
  "new_batch config s =
     \<lparr>b_total = length (fresh s), b_progress = 0,
      b_onProgress = (case onProgress config of Some f \<Rightarrow> Some f | None \<Rightarrow> onProgress_default s),
      b_onError = (case onError config of Some f \<Rightarrow> Some f | None \<Rightarrow> onError_default s),
      b_promises = replicate (length (fresh s)) Pending,
      b_all = (if fresh s = [] then Fulfilled (Arr []) else Pending)\<rparr>"


definition bump :: "batch \<Rightarrow> batch" where
  "bump B = (case b_onProgress B of None \<Rightarrow> B | Some f \<Rightarrow> B\<lparr>b_progress := Suc (b_progress B)\<rparr>)"

definition bump_events :: "nat \<Rightarrow> batch \<Rightarrow> event list" where
  "bump_events b B =
     (case b_onProgress B of None \<Rightarrow> []
      | Some f \<Rightarrow> [OnProgress b f (js_div (Suc (b_progress B)) (b_total B))])"

definition all_done :: "nat \<Rightarrow> batch \<Rightarrow> bool" where
  "all_done i B = (b_all B = Pending \<and> list_all is_fulfilled ((b_promises B)[i := Fulfilled Undefined]))"

definition finish :: "nat \<Rightarrow> batch \<Rightarrow> batch" where
  "finish i B =
     B\<lparr>b_promises := (b_promises B)[i := Fulfilled Undefined],
       b_all := (if all_done i B
                 then Fulfilled (Arr (map value_of ((b_promises B)[i := Fulfilled Undefined])))
                 else b_all B)\<rparr>"

definition finish_events :: "nat \<Rightarrow> nat \<Rightarrow> batch \<Rightarrow> event list" where
  "finish_events b i B =
     (if all_done i B
      then [Settled (AllP b) (Arr (map value_of ((b_promises B)[i := Fulfilled Undefined])))]
      else [])"

definition opt_events :: "callback option \<Rightarrow> (callback \<Rightarrow> event) \<Rightarrow> event list" where
  "opt_events f ev = (case f of None \<Rightarrow> [] | Some g \<Rightarrow> [ev g])"

definition batch_good ::
  "batch \<Rightarrow> nat list \<Rightarrow> (callback \<times> jsnum) list \<Rightarrow> jsval list \<Rightarrow> bool" where
  "batch_good B w pc st =
     (length (b_promises B) = b_total B
      \<and> w = pending_idx (b_promises B)
      \<and> (\<forall>q \<in> set (b_promises B). q = Pending \<or> q = Fulfilled Undefined)
      \<and> (case b_onProgress B of
            Some f \<Rightarrow> b_progress B + length w = b_total B
                      \<and> pc = map (\<lambda>k. (f, js_div k (b_total B))) [1..<Suc (b_progress B)]
          | None \<Rightarrow> pc = [])
      \<and> b_all B = (if w = [] then Fulfilled (Arr (replicate (b_total B) Undefined)) else Pending)
      \<and> st = (if w = [] then [Arr (replicate (b_total B) Undefined)] else []))"

definition unused :: "nat \<Rightarrow> state \<Rightarrow> bool" where
  "unused b s =
     (waiting b (inflight s) = [] \<and> progress_calls b (trace s) = []
      \<and> settled (AllP b) (trace s) = [])"

definition batch_ok :: "nat \<Rightarrow> state \<Rightarrow> bool" where
  "batch_ok b s =
     batch_good (batches s ! b) (waiting b (inflight s)) (progress_calls b (trace s))
       (settled (AllP b) (trace s))"

definition inv :: "state \<Rightarrow> bool" where
  "inv s =
     (load_waiting (inflight s) = pending_idx (load_promises s)
      \<and> (\<forall>b. b < length (batches s) \<longrightarrow> batch_ok b s)
      \<and> (\<forall>b. length (batches s) \<le> b \<longrightarrow> unused b s))"

definition batch_fixed :: "nat \<Rightarrow> state \<Rightarrow> state \<Rightarrow> bool" where
  "batch_fixed b s s' =
     (b < length (batches s')
      \<and> b_total (batches s' ! b) = b_total (batches s ! b)
      \<and> b_onProgress (batches s' ! b) = b_onProgress (batches s ! b)
      \<and> b_onError (batches s' ! b) = b_onError (batches s ! b))"

fun js_less :: "jsnum \<Rightarrow> jsnum \<Rightarrow> bool" where
  "js_less (Num a) (Num b) = (a < b)"
| "js_less (Num a) PosInfinity = True"
| "js_less _ _ = False"

fun constructed_of :: "loader_type \<Rightarrow> event \<Rightarrow> loader option" where
  "constructed_of T (Constructed T' l) = (if T' = T then Some l else None)"
| "constructed_of T _ = None"

definition constructions :: "loader_type \<Rightarrow> event list \<Rightarrow> loader list" where
  "constructions T tr = List.map_filter (constructed_of T) tr"

definition loaders_ok :: "state \<Rightarrow> bool" where
  "loaders_ok s = (\<forall>T l. loaders s T = Some l \<longrightarrow> l < next_loader s)"

definition reg_grow :: "state \<Rightarrow> state \<Rightarrow> bool" where
  "reg_grow s s' =
     (next_loader s \<le> next_loader s'
      \<and> (loaders_ok s \<longrightarrow> loaders_ok s')
      \<and> (\<forall>T l. loaders s' T = Some l \<longrightarrow> loaders s T = Some l \<or> next_loader s \<le> l))"

definition reg_keep :: "loader_type \<Rightarrow> state \<Rightarrow> state \<Rightarrow> bool" where
  "reg_keep T s s' =
     (\<forall>l. loaders s T = Some l \<longrightarrow>
        loaders s' T = Some l \<and> constructions T (trace s') = constructions T (trace s))"

definition reg_rel :: "loader_type \<Rightarrow> batch \<times> state \<Rightarrow> batch \<times> state \<Rightarrow> bool" where
  "reg_rel T x y = (reg_grow (snd x) (snd y) \<and> reg_keep T (snd x) (snd y))"

section \<open>The pending queue\<close>

text \<open>
  C10. \<^verbatim>\<open>preload\<close> appends exactly one request, made of the given loader type and the
  given list, to the end of the queue. The cache, the registry, the default callbacks,
  the outstanding loader calls, the promises and the trace (so: no loader construction,
  no loader call, no callback) stay as they were, whatever the list holds.
\<close>

theorem preload_frame:
  "pending (preload T rs s) = pending s @ [\<lparr>loader = T, paths = rs\<rparr>]
   \<and> length (pending (preload T rs s)) = Suc (length (pending s))
   \<and> resources (preload T rs s) = resources s
   \<and> loaders (preload T rs s) = loaders s
   \<and> next_loader (preload T rs s) = next_loader s
   \<and> onProgress_default (preload T rs s) = onProgress_default s
   \<and> onError_default (preload T rs s) = onError_default s
   \<and> inflight (preload T rs s) = inflight s
   \<and> load_promises (preload T rs s) = load_promises s
   \<and> batches (preload T rs s) = batches s
   \<and> trace (preload T rs s) = trace s"
  by (simp add: preload_def)

section \<open>The drain does not touch the queue it is reading\<close>

lemma pending_emit: "pending (emit e s) = pending s"
  by (simp add: emit_def)

lemma pending_getLoader: "pending (snd (getLoader T s)) = pending s"
  by (simp add: getLoader_def pending_emit split: option.split)

lemma pending_load_entry: "pending (snd (load_entry b l res acc)) = pending (snd acc)"
  by (cases acc)
     (simp add: createPromise_def call_loader_def call_opt_def pending_emit Let_def
           split: option.split)

lemma pending_load_paths: "pending (snd (load_paths b l rs acc)) = pending (snd acc)"
  by (induction rs arbitrary: acc) (simp_all add: pending_load_entry)

lemma pending_load_resource: "pending (snd (load_resource b r acc)) = pending (snd acc)"
proof (cases acc)
  case (Pair B s)
  obtain l s1 where g: "getLoader (loader r) s = (l, s1)"
    by (cases "getLoader (loader r) s")
  have "pending s1 = pending s"
    using pending_getLoader [of "loader r" s] g by simp
  with Pair g show ?thesis
    by (simp add: pending_load_paths)
qed

section \<open>What the drain loads\<close>

lemma map_filter_append:
  "List.map_filter f (xs @ ys) = List.map_filter f xs @ List.map_filter f ys"
  by (simp add: List.map_filter_def)

lemma loader_calls_append: "loader_calls (xs @ ys) = loader_calls xs @ loader_calls ys"
  by (simp add: loader_calls_def map_filter_append)

lemma fresh_paths_set: "set (fresh_paths m ps) = set ps - dom m"
  by (induction ps arbitrary: m) (auto split: option.splits)


lemma fresh_paths_append:
  "fresh_paths m (ps @ qs) = fresh_paths m ps @ fresh_paths (foldl (\<lambda>m p. if m p = None then m(p \<mapsto> Null) else m) m ps) qs"
  by (induction ps arbitrary: m) (auto split: option.splits)

section \<open>Relations preserved along the drain\<close>

lemma load_entry_cached:
  "resources s (path_of e) = Some v \<Longrightarrow>
   load_entry b l e (B, s) = (B, call_opt (onLoad_of e) (\<lambda>f. OnLoad (path_of e) f v) s)"
  by simp

lemma load_entry_fresh:
  "resources s (path_of e) = None \<Longrightarrow>
   load_entry b l e (B, s) =
     (B\<lparr>b_promises := b_promises B @ [Pending], b_total := Suc (b_total B)\<rparr>,
      call_loader l (path_of e) None (BatchK b (length (b_promises B)) (path_of e) (onLoad_of e))
        (s\<lparr>resources := (resources s)(path_of e \<mapsto> Null)\<rparr>))"
  by (simp add: createPromise_def Let_def)

lemma load_paths_rel:
  assumes refl: "\<And>x. R x x"
    and trans: "\<And>x y z. R x y \<Longrightarrow> R y z \<Longrightarrow> R x z"
    and entry: "\<And>B s e. R (B, s) (load_entry b l e (B, s))"
  shows "R x (load_paths b l es x)"
proof (induction es arbitrary: x)
  case Nil
  show ?case by (simp add: refl)
next
  case (Cons e es)
  obtain B s where x: "x = (B, s)" by (cases x)
  have "R x (load_entry b l e x)" unfolding x by (rule entry)
  moreover have "R (load_entry b l e x) (load_paths b l es (load_entry b l e x))"
    by (rule Cons.IH)
  ultimately show ?case using trans by simp
qed

lemma load_resource_rel:
  assumes refl: "\<And>x. R x x"
    and trans: "\<And>x y z. R x y \<Longrightarrow> R y z \<Longrightarrow> R x z"
    and loader: "\<And>B s T. R (B, s) (B, snd (getLoader T s))"
    and entry: "\<And>B s l e. R (B, s) (load_entry b l e (B, s))"
  shows "R (B, s) (load_resource b r (B, s))"
proof -
  obtain l s1 where g: "getLoader (loader r) s = (l, s1)"
    by (cases "getLoader (loader r) s")
  have "R (B, s) (B, s1)"
    using loader [of B s "loader r"] g by simp
  moreover have "R (B, s1) (load_paths b l (paths r) (B, s1))"
    by (rule load_paths_rel [where R = R, OF refl trans entry])
  ultimately show ?thesis
    using g trans by simp
qed

lemma drain_rel:
  assumes refl: "\<And>x. R x x"
    and trans: "\<And>x y z. R x y \<Longrightarrow> R y z \<Longrightarrow> R x z"
    and pop: "\<And>B s q. R (B, s) (B, s\<lparr>pending := q\<rparr>)"
    and loader: "\<And>B s T. R (B, s) (B, snd (getLoader T s))"
    and entry: "\<And>B s l e. R (B, s) (load_entry b l e (B, s))"
  shows "R x (drain b x)"
  using entry
proof (induction b x rule: drain.induct)
  case (1 b B s)
  note ent = "1.prems"
  show ?case
  proof (cases "pending s = []")
    case True
    then show ?thesis by (simp add: refl)
  next
    case False
    let ?y = "load_resource b (last (pending s)) (B, s\<lparr>pending := butlast (pending s)\<rparr>)"
    have "R (B, s) (B, s\<lparr>pending := butlast (pending s)\<rparr>)" by (rule pop)
    moreover have "R (B, s\<lparr>pending := butlast (pending s)\<rparr>) ?y"
      by (rule load_resource_rel [where R = R, OF refl trans loader ent])
    moreover have "R ?y (drain b ?y)" using "1.IH" False ent by simp
    ultimately have "R (B, s) (drain b ?y)" using trans by blast
    with False show ?thesis by simp
  qed
qed

section \<open>Projections of the trace and of the outstanding loader calls\<close>

lemma progress_calls_append [simp]:
  "progress_calls b (xs @ ys) = progress_calls b xs @ progress_calls b ys"
  by (simp add: progress_calls_def map_filter_append)

lemma onload_calls_append [simp]:
  "onload_calls p (xs @ ys) = onload_calls p xs @ onload_calls p ys"
  by (simp add: onload_calls_def map_filter_append)

lemma error_calls_append [simp]: "error_calls (xs @ ys) = error_calls xs @ error_calls ys"
  by (simp add: error_calls_def map_filter_append)

lemma settled_append [simp]: "settled r (xs @ ys) = settled r xs @ settled r ys"
  by (simp add: settled_def map_filter_append)

lemma waiting_append [simp]: "waiting b (xs @ ys) = waiting b xs @ waiting b ys"
  by (simp add: waiting_def map_filter_append)

lemma load_waiting_append [simp]: "load_waiting (xs @ ys) = load_waiting xs @ load_waiting ys"
  by (simp add: load_waiting_def map_filter_append)

declare loader_calls_append [simp]

lemma projections_Nil [simp]:
  "loader_calls [] = []" "progress_calls b [] = []" "onload_calls p [] = []"
  "error_calls [] = []" "settled r [] = []" "waiting b [] = []" "load_waiting [] = []"
  by (simp_all add: loader_calls_def progress_calls_def onload_calls_def error_calls_def
        settled_def waiting_def load_waiting_def)

lemma projections_single [simp]:
  "loader_calls [e] = (case loader_call e of None \<Rightarrow> [] | Some p \<Rightarrow> [p])"
  "progress_calls b [e] = (case progress_call b e of None \<Rightarrow> [] | Some x \<Rightarrow> [x])"
  "onload_calls p [e] = (case onload_call p e of None \<Rightarrow> [] | Some x \<Rightarrow> [x])"
  "error_calls [e] = (case error_call e of None \<Rightarrow> [] | Some x \<Rightarrow> [x])"
  "settled r [e] = (case settle_of r e of None \<Rightarrow> [] | Some x \<Rightarrow> [x])"
  "waiting b [k] = (case batch_index b k of None \<Rightarrow> [] | Some i \<Rightarrow> [i])"
  "load_waiting [k] = (case load_index k of None \<Rightarrow> [] | Some i \<Rightarrow> [i])"
  by (simp_all add: loader_calls_def progress_calls_def onload_calls_def error_calls_def
        settled_def waiting_def load_waiting_def split: option.split)

lemma upt_join: "a \<le> b \<Longrightarrow> b \<le> c \<Longrightarrow> [a..<b] @ [b..<c] = [a..<c]"
  by (metis le_Suc_ex upt_add_eq_append)

lemma drain_frame_refl: "drain_frame b x x"
  by (simp add: drain_frame_def)

lemma drain_frame_trans:
  assumes "drain_frame b x y" and "drain_frame b y z"
  shows "drain_frame b x z"
proof -
  have "[length (b_promises (fst x))..<length (b_promises (fst y))]
        @ [length (b_promises (fst y))..<length (b_promises (fst z))]
        = [length (b_promises (fst x))..<length (b_promises (fst z))]"
    using assms by (simp add: drain_frame_def upt_join)
  with assms show ?thesis
    by (simp add: drain_frame_def)
qed

lemma drain_frame_pop: "drain_frame b (B, s) (B, s\<lparr>pending := q\<rparr>)"
  by (simp add: drain_frame_def)

lemma drain_frame_getLoader: "drain_frame b (B, s) (B, snd (getLoader T s))"
  by (simp add: drain_frame_def getLoader_def emit_def split: option.split)

lemma drain_frame_entry: "drain_frame b (B, s) (load_entry b l e (B, s))"
proof (cases "resources s (path_of e)")
  case None
  then show ?thesis
    by (simp add: load_entry_fresh drain_frame_def call_loader_def emit_def del: load_entry.simps)
next
  case (Some v)
  then show ?thesis
    by (simp add: load_entry_cached drain_frame_def call_opt_def emit_def
             del: load_entry.simps split: option.split)
qed

lemma drain_frame_drain: "drain_frame b x (drain b x)"
  by (rule drain_rel [where R = "drain_frame b", OF drain_frame_refl drain_frame_trans
        drain_frame_pop drain_frame_getLoader drain_frame_entry])

section \<open>The drain, entry by entry\<close>

lemma mark_append: "mark m (ps @ qs) = mark (mark m ps) qs"
  by (induction ps arbitrary: m) simp_all

lemma mark_apply:
  "mark m ps q = (case m q of Some v \<Rightarrow> Some v
                  | None \<Rightarrow> if q \<in> set ps then Some Null else None)"
  by (induction ps arbitrary: m) (auto split: option.splits)

lemma mark_cached: "m q = Some v \<Longrightarrow> mark m ps q = Some v"
  by (simp add: mark_apply)

lemma fresh_paths_mark_append:
  "fresh_paths m (ps @ qs) = fresh_paths m ps @ fresh_paths (mark m ps) qs"
  by (induction ps arbitrary: m) (auto split: option.splits)

lemma onloads_append: "onloads p (es @ es') = onloads p es @ onloads p es'"
  by (simp add: onloads_def map_filter_append)

lemma onloads_Nil [simp]: "onloads p [] = []"
  by (simp add: onloads_def)

lemma processed_Nil: "processed b [] x x"
  by (simp add: processed_def)

lemma processed_append:
  assumes "processed b es x y" and "processed b es' y z"
  shows "processed b (es @ es') x z"
  using assms
  by (simp add: processed_def mark_append fresh_paths_mark_append onloads_append mark_cached
        replicate_add)

lemma processed_pop: "processed b [] (B, s) (B, s\<lparr>pending := q\<rparr>)"
  by (simp add: processed_def)

lemma processed_getLoader: "processed b [] (B, s) (B, snd (getLoader T s))"
  by (simp add: processed_def getLoader_def emit_def split: option.split)

lemma processed_entry: "processed b [e] (B, s) (load_entry b l e (B, s))"
proof (cases "resources s (path_of e)")
  case None
  then show ?thesis
    by (auto simp add: load_entry_fresh processed_def call_loader_def emit_def onloads_def
             simp del: load_entry.simps)
next
  case (Some v)
  then show ?thesis
    by (auto simp add: load_entry_cached processed_def call_opt_def emit_def onloads_def
             simp del: load_entry.simps split: option.split)
qed

lemma processed_load_paths: "processed b es x (load_paths b l es x)"
proof (induction es arbitrary: x)
  case Nil
  show ?case by (simp add: processed_Nil)
next
  case (Cons e es)
  obtain B s where x: "x = (B, s)" by (cases x)
  have "processed b [e] x (load_entry b l e x)"
    unfolding x by (rule processed_entry)
  from processed_append [OF this Cons.IH [of "load_entry b l e x"]]
  show ?case by simp
qed

lemma processed_load_resource: "processed b (paths r) (B, s) (load_resource b r (B, s))"
proof -
  obtain l s1 where g: "getLoader (loader r) s = (l, s1)"
    by (cases "getLoader (loader r) s")
  have "processed b [] (B, s) (B, s1)"
    using processed_getLoader [of b B s "loader r"] g by simp
  from processed_append [OF this processed_load_paths [of b "paths r" "(B, s1)" l]]
  show ?thesis using g by simp
qed

lemma drained_step:
  "pending s \<noteq> [] \<Longrightarrow>
   drained s = paths (last (pending s)) @ drained (s\<lparr>pending := butlast (pending s)\<rparr>)"
  by (cases "pending s" rule: rev_cases) (simp_all add: drained_def)

lemma drained_pending_eq: "pending s = pending s' \<Longrightarrow> drained s = drained s'"
  by (simp add: drained_def)

lemma processed_drain: "processed b (drained (snd x)) x (drain b x)"
proof (induction b x rule: drain.induct)
  case (1 b B s)
  show ?case
  proof (cases "pending s = []")
    case True
    then show ?thesis by (simp add: processed_Nil drained_def)
  next
    case False
    let ?s0 = "s\<lparr>pending := butlast (pending s)\<rparr>"
    let ?y = "load_resource b (last (pending s)) (B, ?s0)"
    have p0: "processed b [] (B, s) (B, ?s0)" by (rule processed_pop)
    have p1: "processed b (paths (last (pending s))) (B, ?s0) ?y"
      by (rule processed_load_resource)
    have "pending (snd ?y) = pending ?s0"
      using pending_load_resource [of b "last (pending s)" "(B, ?s0)"] by simp
    then have d: "drained (snd ?y) = drained ?s0"
      by (rule drained_pending_eq)
    have p2: "processed b (drained ?s0) ?y (drain b ?y)"
      using "1.IH" [OF False] d by simp
    have "processed b (paths (last (pending s)) @ drained ?s0) (B, s) (drain b ?y)"
      using processed_append [OF processed_append [OF p0 p1] p2] by simp
    with False show ?thesis
      by (simp add: drained_step [OF False])
  qed
qed

section \<open>The batch made by a drain\<close>

lemma pending_drain: "pending (snd (drain b x)) = []"
proof (induction b x rule: drain.induct)
  case (1 b B s)
  then show ?case by (cases "pending s = []") simp_all
qed

declare drain.simps [simp del]

lemma loadPending_eq:
  "loadPending config s =
     (length (batches s),
      promise_all (length (batches s))
        ((snd (drain (length (batches s)) (batch0 config s, s)))
           \<lparr>batches := batches (snd (drain (length (batches s)) (batch0 config s, s)))
                        @ [fst (drain (length (batches s)) (batch0 config s, s))]\<rparr>))"
  by (simp add: loadPending_def batch0_def Let_def split: prod.split)

lemma drained_batch:
  assumes "drain (length (batches s)) (batch0 config s, s) = (B, s1)"
  shows "B = \<lparr>b_total = length (fresh s), b_progress = 0,
              b_onProgress = b_onProgress (batch0 config s),
              b_onError = b_onError (batch0 config s),
              b_promises = replicate (length (fresh s)) Pending, b_all = Pending\<rparr>"
proof -
  have p: "processed (length (batches s)) (drained s) (batch0 config s, s) (B, s1)"
    using processed_drain [of "length (batches s)" "(batch0 config s, s)"] assms by simp
  have f: "drain_frame (length (batches s)) (batch0 config s, s) (B, s1)"
    using drain_frame_drain [of "length (batches s)" "(batch0 config s, s)"] assms by simp
  from p have "b_total B = length (fresh s)" "b_promises B = replicate (length (fresh s)) Pending"
    by (simp_all add: processed_def fresh_def batch0_def)
  moreover from f have "b_progress B = 0" "b_onProgress B = b_onProgress (batch0 config s)"
    "b_onError B = b_onError (batch0 config s)" "b_all B = Pending"
    by (simp_all add: drain_frame_def batch0_def)
  ultimately show ?thesis by simp
qed

lemma promise_all_new:
  assumes "b = length (batches s1)"
    and "B = \<lparr>b_total = n, b_progress = 0, b_onProgress = f, b_onError = g,
              b_promises = replicate n Pending, b_all = Pending\<rparr>"
  shows "promise_all b (s1\<lparr>batches := batches s1 @ [B]\<rparr>) =
         (if n = 0
          then s1\<lparr>batches := batches s1 @ [B\<lparr>b_all := Fulfilled (Arr [])\<rparr>],
                  trace := trace s1 @ [Settled (AllP b) (Arr [])]\<rparr>
          else s1\<lparr>batches := batches s1 @ [B]\<rparr>)"
  using assms by (cases n) (simp_all add: promise_all_def emit_def Let_def)

lemma loadPending_state:
  assumes d: "drain (length (batches s)) (batch0 config s, s) = (B, s1)"
  shows "snd (loadPending config s) =
         s1\<lparr>batches := batches s @ [new_batch config s],
            trace := trace s1 @ (if fresh s = [] then [Settled (AllP (length (batches s))) (Arr [])]
                                 else [])\<rparr>"
proof -
  have f: "drain_frame (length (batches s)) (batch0 config s, s) (B, s1)"
    using drain_frame_drain [of "length (batches s)" "(batch0 config s, s)"] d by simp
  then have bs: "batches s1 = batches s"
    by (simp add: drain_frame_def)
  note B = drained_batch [OF d]
  have "snd (loadPending config s) = promise_all (length (batches s1)) (s1\<lparr>batches := batches s1 @ [B]\<rparr>)"
    by (simp add: loadPending_eq d bs)
  also have "\<dots> = (if length (fresh s) = 0
          then s1\<lparr>batches := batches s1 @ [B\<lparr>b_all := Fulfilled (Arr [])\<rparr>],
                  trace := trace s1 @ [Settled (AllP (length (batches s1))) (Arr [])]\<rparr>
          else s1\<lparr>batches := batches s1 @ [B]\<rparr>)"
    by (rule promise_all_new [OF refl B])
  also have "\<dots> = s1\<lparr>batches := batches s @ [new_batch config s],
            trace := trace s1 @ (if fresh s = [] then [Settled (AllP (length (batches s))) (Arr [])]
                                 else [])\<rparr>"
    using B by (simp add: bs new_batch_def batch0_def)
  finally show ?thesis .
qed

section \<open>Effects of a call of loadPending\<close>

declare load_entry.simps [simp del] load_resource.simps [simp del]

lemma loadPending_fst: "fst (loadPending config s) = length (batches s)"
  by (simp add: loadPending_eq)

lemma loadPending_facts:
  obtains B s1 where
    "processed (length (batches s)) (drained s) (batch0 config s, s) (B, s1)"
    "drain_frame (length (batches s)) (batch0 config s, s) (B, s1)"
    "pending s1 = []"
    "snd (loadPending config s) =
       s1\<lparr>batches := batches s @ [new_batch config s],
          trace := trace s1 @ (if fresh s = [] then [Settled (AllP (length (batches s))) (Arr [])]
                               else [])\<rparr>"
proof -
  obtain B s1 where d: "drain (length (batches s)) (batch0 config s, s) = (B, s1)"
    by (cases "drain (length (batches s)) (batch0 config s, s)")
  show ?thesis
  proof (rule that [of B s1])
    show "processed (length (batches s)) (drained s) (batch0 config s, s) (B, s1)"
      using processed_drain [of "length (batches s)" "(batch0 config s, s)"] d by simp
    show "drain_frame (length (batches s)) (batch0 config s, s) (B, s1)"
      using drain_frame_drain [of "length (batches s)" "(batch0 config s, s)"] d by simp
    show "pending s1 = []"
      using pending_drain [of "length (batches s)" "(batch0 config s, s)"] d by simp
    show "snd (loadPending config s) =
       s1\<lparr>batches := batches s @ [new_batch config s],
          trace := trace s1 @ (if fresh s = [] then [Settled (AllP (length (batches s))) (Arr [])]
                               else [])\<rparr>"
      by (rule loadPending_state [OF d])
  qed
qed



lemma loadPending_loader_calls:
  "loader_calls (trace (snd (loadPending config s))) = loader_calls (trace s) @ fresh s"
  by (rule loadPending_facts [of s config]) (simp add: processed_def fresh_def)


lemma loadPending_progress_calls:
  "progress_calls c (trace (snd (loadPending config s))) = progress_calls c (trace s)"
  by (rule loadPending_facts [of s config]) (simp add: drain_frame_def)


lemma loadPending_settled:
  "settled r (trace (snd (loadPending config s))) =
   settled r (trace s) @ (if r = AllP (length (batches s)) \<and> fresh s = [] then [Arr []] else [])"
  by (rule loadPending_facts [of s config]) (simp add: drain_frame_def)

lemma loadPending_batches:
  "batches (snd (loadPending config s)) = batches s @ [new_batch config s]"
  by (rule loadPending_facts [of s config]) simp

lemma loadPending_load_promises:
  "load_promises (snd (loadPending config s)) = load_promises s"
  by (rule loadPending_facts [of s config]) (simp add: drain_frame_def)

lemma loadPending_defaults:
  "onProgress_default (snd (loadPending config s)) = onProgress_default s"
  "onError_default (snd (loadPending config s)) = onError_default s"
  by (rule loadPending_facts [of s config], simp add: drain_frame_def)+

lemma loadPending_load_waiting:
  "load_waiting (inflight (snd (loadPending config s))) = load_waiting (inflight s)"
  by (rule loadPending_facts [of s config]) (simp add: drain_frame_def)

lemma loadPending_waiting:
  "waiting c (inflight (snd (loadPending config s))) =
   waiting c (inflight s) @ (if c = length (batches s) then [0..<length (fresh s)] else [])"
proof (rule loadPending_facts [of s config])
  fix B s1
  assume p: "processed (length (batches s)) (drained s) (batch0 config s, s) (B, s1)"
    and f: "drain_frame (length (batches s)) (batch0 config s, s) (B, s1)"
    and e: "snd (loadPending config s) =
       s1\<lparr>batches := batches s @ [new_batch config s],
          trace := trace s1 @ (if fresh s = [] then [Settled (AllP (length (batches s))) (Arr [])]
                               else [])\<rparr>"
  from p have "length (b_promises B) = length (fresh s)"
    by (simp add: processed_def fresh_def batch0_def)
  with f e show ?thesis
    by (simp add: drain_frame_def batch0_def)
qed

section \<open>Immediate load and the drain as a fold\<close>

lemma load_cached:
  "resources s p = Some v \<Longrightarrow>
   load T p f g s =
     (length (load_promises s),
      s\<lparr>load_promises := load_promises s @ [Fulfilled v],
        trace := trace s @ [Settled (LoadP (length (load_promises s))) v]\<rparr>)"
  by (simp add: load_def resolve_load_def emit_def Let_def)

lemma load_fresh:
  "resources s p = None \<Longrightarrow>
   load T p f g s =
     (length (load_promises s),
      call_loader (fst (getLoader T s)) p f (LoadK (length (load_promises s)) p g)
        ((snd (getLoader T s))
           \<lparr>load_promises := load_promises s @ [Pending],
            resources := (resources s)(p \<mapsto> Null)\<rparr>))"
  by (simp add: load_def getLoader_def emit_def call_loader_def Let_def split: option.split)








section \<open>Cached and in-progress paths\<close>



lemma new_batch_total: "b_total (new_batch config s) = length (fresh s)"
  by (simp add: new_batch_def)

lemma loadPending_total:
  "b_total (batches (snd (loadPending config s)) ! length (batches s)) = length (fresh s)"
  by (simp add: loadPending_batches new_batch_def)


lemma fresh_set: "set (fresh s) = path_of ` set (drained s) - dom (resources s)"
  by (simp add: fresh_def fresh_paths_set)




text \<open>
  C7. If the cache holds the placeholder \<^verbatim>\<open>null\<close> for \<open>p\<close>, \<^verbatim>\<open>load\<close> for \<open>p\<close> returns a
  promise that is fulfilled with \<^verbatim>\<open>null\<close> at once and changes nothing else. In particular,
  when \<open>p\<close> is not in the cache, a first \<^verbatim>\<open>load\<close> stores the placeholder, calls the loader
  once and leaves its promise pending; a second \<^verbatim>\<open>load\<close> right after it is fulfilled with
  \<^verbatim>\<open>null\<close> while the first promise is still pending, and the loader is not called again.
\<close>

theorem load_in_progress:
  "(resources s p = Some Null \<longrightarrow>
      load T p f g s =
        (length (load_promises s),
         s\<lparr>load_promises := load_promises s @ [Fulfilled Null],
           trace := trace s @ [Settled (LoadP (length (load_promises s))) Null]\<rparr>))
   \<and> (resources s p = None \<longrightarrow>
        resources (snd (load T p f g s)) p = Some Null
        \<and> load_promises (snd (load T p f g s)) = load_promises s @ [Pending]
        \<and> loader_calls (trace (snd (load T p f g s))) = loader_calls (trace s) @ [p]
        \<and> load_promises (snd (load T' p f' g' (snd (load T p f g s))))
            = load_promises s @ [Pending, Fulfilled Null]
        \<and> inflight (snd (load T' p f' g' (snd (load T p f g s))))
            = inflight (snd (load T p f g s))
        \<and> loader_calls (trace (snd (load T' p f' g' (snd (load T p f g s)))))
            = loader_calls (trace s) @ [p])"
proof -
  have a: "resources s p = Some Null \<Longrightarrow> 
      load T p f g s =
        (length (load_promises s),
         s\<lparr>load_promises := load_promises s @ [Fulfilled Null],
           trace := trace s @ [Settled (LoadP (length (load_promises s))) Null]\<rparr>)"
    by (rule load_cached)
  have b: "resources (snd (load T p f g s)) p = Some Null
        \<and> load_promises (snd (load T p f g s)) = load_promises s @ [Pending]
        \<and> loader_calls (trace (snd (load T p f g s))) = loader_calls (trace s) @ [p]"
    if "resources s p = None"
    using that
    by (simp add: load_fresh call_loader_def emit_def getLoader_def split: option.split)
  have c: "load_promises (snd (load T' p f' g' (snd (load T p f g s))))
            = load_promises s @ [Pending, Fulfilled Null]
        \<and> inflight (snd (load T' p f' g' (snd (load T p f g s))))
            = inflight (snd (load T p f g s))
        \<and> loader_calls (trace (snd (load T' p f' g' (snd (load T p f g s)))))
            = loader_calls (trace s) @ [p]"
    if n: "resources s p = None"
  proof -
    from b [OF n] have "resources (snd (load T p f g s)) p = Some Null" by simp
    from load_cached [OF this, of T' f' g'] b [OF n] show ?thesis by simp
  qed
  from a b c show ?thesis by blast
qed

theorem load_in_progress_witness:
  "resources init ''a'' = None
   \<and> resources (snd (load 0 ''a'' None None init)) ''a'' = Some Null
   \<and> load_promises (snd (load 0 ''a'' None None init)) = [Pending]
   \<and> load_promises (snd (load 0 ''a'' None None (snd (load 0 ''a'' None None init))))
      = [Pending, Fulfilled Null]
   \<and> inflight (snd (load 0 ''a'' None None (snd (load 0 ''a'' None None init))))
      = inflight (snd (load 0 ''a'' None None init))
   \<and> loader_calls (trace (snd (load 0 ''a'' None None (snd (load 0 ''a'' None None init)))))
      = [''a'']"
proof -
  have h: "resources init ''a'' = None"
    by (simp add: init_def)
  show ?thesis
    using h load_in_progress [of init "''a''" 0 None None 0 None None]
    by (simp add: init_def)
qed



text \<open>
  C9. \<^verbatim>\<open>get\<close> returns \<^verbatim>\<open>undefined\<close> both for a missing key and for a key stored with
  \<^verbatim>\<open>undefined\<close>. \<^verbatim>\<open>load\<close> and \<^verbatim>\<open>loadPending\<close> look at the presence of the key: after
  \<^verbatim>\<open>add(p, undefined)\<close>, and whenever \<open>p\<close> is a key with any value \<open>v\<close> (the placeholder
  included), \<^verbatim>\<open>load\<close> is fulfilled with the stored value without calling a loader, and
  the loader calls made by \<^verbatim>\<open>loadPending\<close> do not include \<open>p\<close>.
\<close>

theorem presence_not_value:
  "get p (add p Undefined s) = Undefined
   \<and> (resources s p = None \<longrightarrow> get p s = Undefined)
   \<and> load T p f g (add p Undefined s) =
       (length (load_promises s),
        (add p Undefined s)
          \<lparr>load_promises := load_promises s @ [Fulfilled Undefined],
           trace := trace s @ [Settled (LoadP (length (load_promises s))) Undefined]\<rparr>)
   \<and> (resources s p = Some v \<longrightarrow>
        load T p f g s =
          (length (load_promises s),
           s\<lparr>load_promises := load_promises s @ [Fulfilled v],
             trace := trace s @ [Settled (LoadP (length (load_promises s))) v]\<rparr>)
        \<and> (\<exists>L. loader_calls (trace (snd (loadPending config s))) = loader_calls (trace s) @ L
                \<and> p \<notin> set L
                \<and> b_total (batches (snd (loadPending config s)) ! length (batches s)) = length L))
   \<and> (\<exists>L. loader_calls (trace (snd (loadPending config (add p Undefined s))))
             = loader_calls (trace s) @ L
           \<and> p \<notin> set L
           \<and> b_total (batches (snd (loadPending config (add p Undefined s))) ! length (batches s))
             = length L)"
proof -
  have k: "\<exists>L. loader_calls (trace (snd (loadPending config s'))) = loader_calls (trace s') @ L
                \<and> p \<notin> set L
                \<and> b_total (batches (snd (loadPending config s')) ! length (batches s')) = length L"
    if "resources s' p = Some w" for s' w
  proof (intro exI conjI)
    show "loader_calls (trace (snd (loadPending config s'))) = loader_calls (trace s') @ fresh s'"
      by (rule loadPending_loader_calls)
    show "p \<notin> set (fresh s')" using that by (auto simp add: fresh_set)
    show "b_total (batches (snd (loadPending config s')) ! length (batches s')) = length (fresh s')"
      by (rule loadPending_total)
  qed
  have u: "resources (add p Undefined s) p = Some Undefined"
    by (simp add: add_def)
  have "load T p f g (add p Undefined s) =
       (length (load_promises s),
        (add p Undefined s)
          \<lparr>load_promises := load_promises s @ [Fulfilled Undefined],
           trace := trace s @ [Settled (LoadP (length (load_promises s))) Undefined]\<rparr>)"
    using load_cached [OF u, of T f g] by (simp add: add_def)
  moreover have "\<exists>L. loader_calls (trace (snd (loadPending config (add p Undefined s))))
             = loader_calls (trace s) @ L
           \<and> p \<notin> set L
           \<and> b_total (batches (snd (loadPending config (add p Undefined s))) ! length (batches s))
             = length L"
    using k [OF u] by (simp add: add_def)
  ultimately show ?thesis
    using k load_cached [of s p v T f g] by (simp add: get_def add_def)
qed

theorem presence_not_value_witness:
  "resources init ''a'' = None
   \<and> get ''a'' init = Undefined
   \<and> get ''a'' (add ''a'' Undefined init) = Undefined
   \<and> resources (add ''a'' Null init) ''a'' = Some Null
   \<and> fst (load 0 ''a'' None None (add ''a'' Null init)) = 0
   \<and> load_promises (snd (load 0 ''a'' None None (add ''a'' Null init))) = [Fulfilled Null]
   \<and> load_promises (snd (load 0 ''a'' None None (add ''a'' Undefined init))) = [Fulfilled Undefined]
   \<and> inflight (snd (load 0 ''a'' None None (add ''a'' Undefined init))) = []
   \<and> (\<exists>L. loader_calls (trace (snd (loadPending \<lparr>onProgress = None, onError = None\<rparr>
              (add ''a'' Null init)))) = L
          \<and> ''a'' \<notin> set L
          \<and> b_total (batches (snd (loadPending \<lparr>onProgress = None, onError = None\<rparr>
              (add ''a'' Null init))) ! 0) = length L)"
proof -
  have h: "resources init ''a'' = None" "resources (add ''a'' Null init) ''a'' = Some Null"
    by (simp_all add: init_def add_def)
  show ?thesis
    using h
      presence_not_value [of "''a''" init 0 None None Null "\<lparr>onProgress = None, onError = None\<rparr>"]
      presence_not_value [of "''a''" "add ''a'' Null init" 0 None None Null
        "\<lparr>onProgress = None, onError = None\<rparr>"]
    by (simp add: init_def add_def)
qed

section \<open>Completions in closed form\<close>

lemma call_opt_eq: "call_opt f ev s = s\<lparr>trace := trace s @ opt_events f ev\<rparr>"
  by (simp add: call_opt_def opt_events_def emit_def split: option.split)

lemma report_progress_eq:
  "b < length (batches s) \<Longrightarrow>
   report_progress b s =
     s\<lparr>batches := (batches s)[b := bump (batches s ! b)],
       trace := trace s @ bump_events b (batches s ! b)\<rparr>"
  by (simp add: report_progress_def bump_def bump_events_def emit_def Let_def split: option.split)

lemma report_error_eq:
  "b < length (batches s) \<Longrightarrow>
   report_error b e s =
     s\<lparr>trace := trace s @ opt_events (b_onError (batches s ! b)) (\<lambda>f. OnError f e)\<rparr>"
  by (simp add: report_error_def call_opt_eq)

lemma resolve_op_eq:
  "b < length (batches s) \<Longrightarrow> i < length (b_promises (batches s ! b)) \<Longrightarrow>
   b_promises (batches s ! b) ! i = Pending \<Longrightarrow>
   resolve_op b i s =
     s\<lparr>batches := (batches s)[b := finish i (batches s ! b)],
       trace := trace s @ finish_events b i (batches s ! b)\<rparr>"
  by (simp add: resolve_op_def promise_all_def finish_def finish_events_def all_done_def
        emit_def Let_def)

lemma bump_promises [simp]: "b_promises (bump B) = b_promises B"
  by (simp add: bump_def split: option.split)

lemma on_success_batch:
  assumes "b < length (batches s)" "i < length (b_promises (batches s ! b))"
    "b_promises (batches s ! b) ! i = Pending"
  shows "on_success (BatchK b i p ol) r s =
     s\<lparr>resources := (resources s)(p \<mapsto> r),
       batches := (batches s)[b := finish i (bump (batches s ! b))],
       trace := trace s @ bump_events b (batches s ! b) @ opt_events ol (\<lambda>f. OnLoad p f r)
                @ finish_events b i (bump (batches s ! b))\<rparr>"
  using assms
  by (simp add: report_progress_eq call_opt_eq resolve_op_eq Let_def)

lemma on_error_batch:
  assumes "b < length (batches s)" "i < length (b_promises (batches s ! b))"
    "b_promises (batches s ! b) ! i = Pending"
  shows "on_error (BatchK b i p ol) e s =
     s\<lparr>resources := (resources s)(p := None),
       batches := (batches s)[b := finish i (bump (batches s ! b))],
       trace := trace s @ opt_events (b_onError (batches s ! b)) (\<lambda>f. OnError f e)
                @ bump_events b (batches s ! b) @ finish_events b i (bump (batches s ! b))\<rparr>"
  using assms
  by (simp add: report_progress_eq report_error_eq resolve_op_eq Let_def)

lemma on_success_load:
  assumes "pr < length (load_promises s)" "load_promises s ! pr = Pending"
  shows "on_success (LoadK pr p g) r s =
     s\<lparr>resources := (resources s)(p \<mapsto> r),
       load_promises := (load_promises s)[pr := Fulfilled r],
       trace := trace s @ [Settled (LoadP pr) r]\<rparr>"
  using assms by (simp add: resolve_load_def emit_def)

lemma on_error_load:
  assumes "pr < length (load_promises s)" "load_promises s ! pr = Pending"
  shows "on_error (LoadK pr p g) e s =
     s\<lparr>resources := (resources s)(p := None),
       load_promises := (load_promises s)[pr := Fulfilled Undefined],
       trace := trace s @ opt_events g (\<lambda>f. OnError f e) @ [Settled (LoadP pr) Undefined]\<rparr>"
  using assms by (simp add: resolve_load_def emit_def call_opt_eq Let_def)

lemma map_filter_update_None:
  assumes "k < length xs" and "f None = None" and "distinct (List.map_filter f xs)"
  shows "List.map_filter f (xs[k := None]) =
         (case f (xs ! k) of None \<Rightarrow> List.map_filter f xs
          | Some i \<Rightarrow> filter (\<lambda>j. j \<noteq> i) (List.map_filter f xs))"
proof -
  have xs: "xs = take k xs @ xs ! k # drop (Suc k) xs"
    using assms(1) by (rule id_take_nth_drop)
  have up: "xs[k := None] = take k xs @ None # drop (Suc k) xs"
    using assms(1) by (rule upd_conv_take_nth_drop)
  show ?thesis
  proof (cases "f (xs ! k)")
    case None
    then show ?thesis
      by (subst (2) xs, simp add: up map_filter_append assms(2))
  next
    case (Some i)
    have d: "distinct (List.map_filter f (take k xs) @ i # List.map_filter f (drop (Suc k) xs))"
      using assms(3) Some by (subst (asm) xs) (simp add: map_filter_append)
    then have "filter (\<lambda>j. j \<noteq> i) (List.map_filter f (take k xs)) = List.map_filter f (take k xs)"
      and "filter (\<lambda>j. j \<noteq> i) (List.map_filter f (drop (Suc k) xs)) = List.map_filter f (drop (Suc k) xs)"
      by (auto simp add: filter_id_conv)
    then have "filter (\<lambda>j. j \<noteq> i) (List.map_filter f xs)
               = List.map_filter f (take k xs) @ List.map_filter f (drop (Suc k) xs)"
      using Some by (subst xs) (simp add: map_filter_append)
    then show ?thesis
      using Some by (simp add: up map_filter_append assms(2))
  qed
qed

lemma map_filter_nth_mem:
  "k < length xs \<Longrightarrow> f (xs ! k) = Some i \<Longrightarrow> i \<in> set (List.map_filter f xs)"
  by (force simp add: List.map_filter_def in_set_conv_nth)

lemma pending_idx_snoc:
  "pending_idx (ps @ [q]) = pending_idx ps @ (if q = Pending then [length ps] else [])"
proof -
  have "filter (\<lambda>i. (ps @ [q]) ! i = Pending) [0..<length ps] = filter (\<lambda>i. ps ! i = Pending) [0..<length ps]"
    by (rule filter_cong) (simp_all add: nth_append)
  then show ?thesis by (simp add: pending_idx_def)
qed

lemma pending_idx_update:
  "pending_idx (ps[i := Fulfilled v]) = filter (\<lambda>j. j \<noteq> i) (pending_idx ps)"
proof (cases "i < length ps")
  case True
  have "filter (\<lambda>j. ps[i := Fulfilled v] ! j = Pending) [0..<length ps]
        = filter (\<lambda>j. j \<noteq> i \<and> ps ! j = Pending) [0..<length ps]"
    using True by (intro filter_cong refl) (auto simp add: nth_list_update)
  then show ?thesis by (simp add: pending_idx_def conj_commute)
next
  case False
  then have "filter (\<lambda>j. j \<noteq> i) (pending_idx ps) = pending_idx ps"
    unfolding pending_idx_def filter_filter
    by (intro filter_cong refl) auto
  moreover have "ps[i := Fulfilled v] = ps"
    using False by (simp add: list_update_beyond)
  ultimately show ?thesis by simp
qed

lemma pending_idx_distinct: "distinct (pending_idx ps)"
  by (simp add: pending_idx_def)

lemma pending_idx_mem: "i \<in> set (pending_idx ps) \<longleftrightarrow> i < length ps \<and> ps ! i = Pending"
  by (auto simp add: pending_idx_def)

lemma pending_idx_replicate: "pending_idx (replicate n Pending) = [0..<n]"
  by (simp add: pending_idx_def filter_id_conv)

section \<open>The invariant of a batch\<close>

lemma all_fulfilled_iff:
  assumes "\<forall>q \<in> set ps. q = Pending \<or> q = Fulfilled Undefined"
  shows "list_all is_fulfilled ps \<longleftrightarrow> pending_idx ps = []"
proof -
  have "pending_idx ps = [] \<longleftrightarrow> (\<forall>i < length ps. ps ! i \<noteq> Pending)"
    by (auto simp add: pending_idx_def filter_empty_conv)
  also have "\<dots> \<longleftrightarrow> (\<forall>q \<in> set ps. q \<noteq> Pending)"
    by (simp add: all_set_conv_all_nth)
  also have "\<dots> \<longleftrightarrow> (\<forall>q \<in> set ps. is_fulfilled q)"
    using assms by (intro ball_cong refl) auto
  finally show ?thesis by (simp add: list_all_iff)
qed

lemma values_undefined:
  assumes "\<forall>q \<in> set ps. q = Pending \<or> q = Fulfilled Undefined" and "pending_idx ps = []"
  shows "map value_of ps = replicate (length ps) Undefined"
proof -
  have "\<forall>i < length ps. ps ! i \<noteq> Pending"
    using assms(2) by (auto simp add: pending_idx_def filter_empty_conv)
  then have "\<forall>q \<in> set ps. q \<noteq> Pending"
    by (simp add: all_set_conv_all_nth)
  with assms(1) have "\<forall>q \<in> set ps. value_of q = Undefined" by auto
  then show ?thesis
    by (induction ps) simp_all
qed

lemma filter_neq_id: "x \<notin> set xs \<Longrightarrow> filter (\<lambda>j. j \<noteq> x) xs = xs"
  by (induction xs) auto

lemma length_filter_neq:
  "distinct xs \<Longrightarrow> x \<in> set xs \<Longrightarrow> Suc (length (filter (\<lambda>j. j \<noteq> x) xs)) = length xs"
  by (induction xs) (auto simp add: filter_neq_id)

lemma batch_good_settle:
  assumes g: "batch_good B w pc st" and i: "i \<in> set w"
  shows "batch_good (finish i (bump B)) (filter (\<lambda>j. j \<noteq> i) w)
           (pc @ progress_calls b (bump_events b B))
           (st @ settled (AllP b) (finish_events b i (bump B)))"
proof -
  let ?ps = "b_promises B"
  let ?ps' = "?ps[i := Fulfilled Undefined]"
  let ?w' = "filter (\<lambda>j. j \<noteq> i) w"
  from g have len: "length ?ps = b_total B" and w: "w = pending_idx ?ps"
    and el: "\<forall>q \<in> set ?ps. q = Pending \<or> q = Fulfilled Undefined"
    by (simp_all add: batch_good_def)
  from i have ne: "w \<noteq> []" by auto
  with g have pend: "b_all B = Pending" and st: "st = []"
    by (simp_all add: batch_good_def)
  have w': "?w' = pending_idx ?ps'"
    by (simp add: w pending_idx_update)
  have el': "\<forall>q \<in> set ?ps'. q = Pending \<or> q = Fulfilled Undefined"
    using el set_update_subset_insert [of ?ps i "Fulfilled Undefined"] by auto
  have lw: "Suc (length ?w') = length w"
    using i by (simp add: length_filter_neq w pending_idx_distinct)
  have ball: "b_all (bump B) = Pending"
    using pend by (simp add: bump_def split: option.split)
  have fin: "all_done i (bump B) \<longleftrightarrow> ?w' = []"
    using all_fulfilled_iff [OF el'] ball by (simp add: all_done_def w')
  have vals: "?w' = [] \<Longrightarrow> map value_of ?ps' = replicate (b_total B) Undefined"
    using values_undefined [OF el'] len by (simp add: w')
  have tot: "b_total (bump B) = b_total B"
    by (simp add: bump_def split: option.split)
  have prog: "(case b_onProgress B of
            Some f \<Rightarrow> b_progress (bump B) + length ?w' = b_total B
                      \<and> pc @ progress_calls b (bump_events b B)
                        = map (\<lambda>k. (f, js_div k (b_total B))) [1..<Suc (b_progress (bump B))]
          | None \<Rightarrow> pc @ progress_calls b (bump_events b B) = [])"
  proof (cases "b_onProgress B")
    case None
    with g show ?thesis by (simp add: batch_good_def bump_events_def)
  next
    case (Some f)
    with g have "b_progress B + length w = b_total B"
      and "pc = map (\<lambda>k. (f, js_div k (b_total B))) [1..<Suc (b_progress B)]"
      by (auto simp add: batch_good_def simp del: upt_Suc)
    with Some lw show ?thesis
      by (simp add: bump_def bump_events_def)
  qed
  have op: "b_onProgress (finish i (bump B)) = b_onProgress B"
    by (simp add: finish_def bump_def split: option.split)
  have pr: "b_progress (finish i (bump B)) = b_progress (bump B)"
    by (simp add: finish_def)
  have totf: "b_total (finish i (bump B)) = b_total B"
    using tot by (simp add: finish_def)
  show ?thesis
    unfolding batch_good_def
  proof (intro conjI)
    show "length (b_promises (finish i (bump B))) = b_total (finish i (bump B))"
      using len tot by (simp add: finish_def)
    show "?w' = pending_idx (b_promises (finish i (bump B)))"
      using w' by (simp add: finish_def)
    show "\<forall>q \<in> set (b_promises (finish i (bump B))). q = Pending \<or> q = Fulfilled Undefined"
      using el' by (simp add: finish_def)
    show "case b_onProgress (finish i (bump B)) of
            None \<Rightarrow> pc @ progress_calls b (bump_events b B) = []
          | Some f \<Rightarrow> b_progress (finish i (bump B)) + length ?w' = b_total (finish i (bump B))
              \<and> pc @ progress_calls b (bump_events b B)
                = map (\<lambda>k. (f, js_div k (b_total (finish i (bump B)))))
                    [1..<Suc (b_progress (finish i (bump B)))]"
      using prog by (simp only: op pr totf)
    show "b_all (finish i (bump B)) =
          (if ?w' = [] then Fulfilled (Arr (replicate (b_total (finish i (bump B))) Undefined))
           else Pending)"
      using fin vals ball tot by (simp add: finish_def)
    show "st @ settled (AllP b) (finish_events b i (bump B)) =
          (if ?w' = [] then [Arr (replicate (b_total (finish i (bump B))) Undefined)] else [])"
      using fin vals tot st by (simp add: finish_def finish_events_def)
  qed
qed

section \<open>The invariant of reachable states\<close>

lemma inv_init: "inv init"
  by (simp add: inv_def unused_def init_def pending_idx_def)

lemma inv_same:
  assumes "inv s" and "inflight s' = inflight s" and "load_promises s' = load_promises s"
    and "batches s' = batches s"
    and "\<And>b. progress_calls b (trace s') = progress_calls b (trace s)"
    and "\<And>b. settled (AllP b) (trace s') = settled (AllP b) (trace s)"
  shows "inv s'"
  using assms by (simp add: inv_def batch_ok_def unused_def)

lemma inv_add: "inv s \<Longrightarrow> inv (add p v s)"
  by (erule inv_same) (simp_all add: add_def)

lemma remove_frame:
  "inflight (remove ps s) = inflight s \<and> load_promises (remove ps s) = load_promises s
   \<and> batches (remove ps s) = batches s \<and> trace (remove ps s) = trace s
   \<and> loaders (remove ps s) = loaders s \<and> next_loader (remove ps s) = next_loader s"
  by (induction ps arbitrary: s) simp_all

lemma inv_remove: "inv s \<Longrightarrow> inv (remove ps s)"
  by (erule inv_same) (simp_all add: remove_frame)

lemma inv_getLoader: "inv s \<Longrightarrow> inv (snd (getLoader T s))"
  by (erule inv_same) (simp_all add: getLoader_def emit_def split: option.split)

lemma inv_removeLoader: "inv s \<Longrightarrow> inv (removeLoader T s)"
  by (erule inv_same) (simp_all add: removeLoader_def)

lemma inv_setOnProgressDefault: "inv s \<Longrightarrow> inv (setOnProgressDefault f s)"
  by (erule inv_same) (simp_all add: setOnProgressDefault_def)

lemma inv_setOnErrorDefault: "inv s \<Longrightarrow> inv (setOnErrorDefault f s)"
  by (erule inv_same) (simp_all add: setOnErrorDefault_def)

lemma inv_preload: "inv s \<Longrightarrow> inv (preload T rs s)"
  by (erule inv_same) (simp_all add: preload_def)

lemma inv_load:
  assumes "inv s"
  shows "inv (snd (load T p f g s))"
proof (cases "resources s p")
  case (Some v)
  with assms show ?thesis
    by (simp add: load_cached inv_def batch_ok_def unused_def pending_idx_snoc)
next
  case None
  with assms show ?thesis
    by (simp add: load_fresh inv_def batch_ok_def unused_def pending_idx_snoc call_loader_def
          emit_def getLoader_def split: option.split)
qed

lemma batch_good_new:
  "batch_good \<lparr>b_total = n, b_progress = 0, b_onProgress = f, b_onError = g,
                b_promises = replicate n Pending,
                b_all = (if n = 0 then Fulfilled (Arr []) else Pending)\<rparr>
     [0..<n] [] (if n = 0 then [Arr []] else [])"
  by (simp add: batch_good_def pending_idx_replicate split: option.split)

lemma inv_loadPending:
  assumes "inv s"
  shows "inv (snd (loadPending config s))"
proof -
  let ?s' = "snd (loadPending config s)"
  let ?n = "length (batches s)"
  have l: "load_waiting (inflight ?s') = pending_idx (load_promises ?s')"
    using assms by (simp add: loadPending_load_waiting loadPending_load_promises inv_def)
  have u: "unused ?n s"
    using assms by (simp add: inv_def)
  have new: "batch_ok ?n ?s'"
    using u batch_good_new [of "length (fresh s)" "b_onProgress (new_batch config s)"
        "b_onError (new_batch config s)"]
    by (simp add: batch_ok_def unused_def loadPending_batches loadPending_waiting
          loadPending_progress_calls loadPending_settled new_batch_def)
  have old: "batch_ok b ?s'" if "b < ?n" for b
  proof -
    from that assms have "batch_ok b s" by (simp add: inv_def)
    with that show ?thesis
      by (simp add: batch_ok_def loadPending_batches loadPending_waiting
            loadPending_progress_calls loadPending_settled nth_append)
  qed
  have later: "unused b ?s'" if "?n < b" for b
  proof -
    from that assms have "unused b s" by (simp add: inv_def)
    with that show ?thesis
      by (simp add: unused_def loadPending_waiting loadPending_progress_calls loadPending_settled)
  qed
  have "batch_ok b ?s'" if "b < length (batches ?s')" for b
  proof -
    from that have "b < ?n \<or> b = ?n" by (auto simp add: loadPending_batches)
    then show ?thesis using old new by auto
  qed
  moreover have "unused b ?s'" if "length (batches ?s') \<le> b" for b
    using that later by (simp add: loadPending_batches)
  ultimately have "(\<forall>b. b < length (batches ?s') \<longrightarrow> batch_ok b ?s')
      \<and> (\<forall>b. length (batches ?s') \<le> b \<longrightarrow> unused b ?s')"
    by blast
  with l show ?thesis by (simp add: inv_def)
qed

section \<open>The invariant and the completion of a loader call\<close>

lemma map_filter_update_same:
  assumes "k < length xs" and "f None = None" and "f (xs ! k) = None"
  shows "List.map_filter f (xs[k := None]) = List.map_filter f xs"
proof -
  have xs: "xs = take k xs @ xs ! k # drop (Suc k) xs"
    using assms(1) by (rule id_take_nth_drop)
  have up: "xs[k := None] = take k xs @ None # drop (Suc k) xs"
    using assms(1) by (rule upd_conv_take_nth_drop)
  show ?thesis
    by (subst (2) xs, simp add: up map_filter_append assms)
qed

lemma events_no_progress [simp]:
  "progress_calls c (opt_events f (\<lambda>h. OnLoad p h r)) = []"
  "progress_calls c (opt_events f (\<lambda>h. OnError h e)) = []"
  "progress_calls c (finish_events b i B) = []"
  "c \<noteq> b \<Longrightarrow> progress_calls c (bump_events b B) = []"
  by (simp_all add: opt_events_def finish_events_def bump_events_def split: option.split)

lemma events_no_settle [simp]:
  "settled x (opt_events f (\<lambda>h. OnLoad p h r)) = []"
  "settled x (opt_events f (\<lambda>h. OnError h e)) = []"
  "settled x (bump_events b B) = []"
  "c \<noteq> b \<Longrightarrow> settled (AllP c) (finish_events b i B) = []"
  "settled (LoadP n) (finish_events b i B) = []"
  by (simp_all add: opt_events_def finish_events_def bump_events_def split: option.split)

lemma events_errors [simp]:
  "error_calls (opt_events f (\<lambda>h. OnLoad p h r)) = []"
  "error_calls (opt_events f (\<lambda>h. OnError h e)) = (case f of None \<Rightarrow> [] | Some h \<Rightarrow> [(h, e)])"
  "error_calls (bump_events b B) = []"
  "error_calls (finish_events b i B) = []"
  by (simp_all add: opt_events_def finish_events_def bump_events_def split: option.split)

lemma events_no_loader_call [simp]:
  "loader_calls (opt_events f (\<lambda>h. OnLoad p h r)) = []"
  "loader_calls (opt_events f (\<lambda>h. OnError h e)) = []"
  "loader_calls (bump_events b B) = []"
  "loader_calls (finish_events b i B) = []"
  by (simp_all add: opt_events_def finish_events_def bump_events_def split: option.split)

text \<open>What the invariant says about an outstanding loader call.\<close>

lemma inv_load_call:
  assumes "inv s" and "k < length (inflight s)" and "inflight s ! k = Some (LoadK pr p g)"
  shows "pr < length (load_promises s) \<and> load_promises s ! pr = Pending"
proof -
  have "pr \<in> set (load_waiting (inflight s))"
    unfolding load_waiting_def
    using assms(2,3) by (intro map_filter_nth_mem [of k]) simp_all
  with assms(1) show ?thesis
    by (simp add: inv_def pending_idx_mem)
qed

lemma inv_batch_call:
  assumes "inv s" and "k < length (inflight s)" and "inflight s ! k = Some (BatchK b i p ol)"
  shows "b < length (batches s) \<and> i \<in> set (waiting b (inflight s))
         \<and> i < length (b_promises (batches s ! b)) \<and> b_promises (batches s ! b) ! i = Pending"
proof -
  have i: "i \<in> set (waiting b (inflight s))"
    unfolding waiting_def
    using assms(2,3) by (intro map_filter_nth_mem [of k]) simp_all
  have b: "b < length (batches s)"
  proof (rule ccontr)
    assume "\<not> b < length (batches s)"
    with assms(1) have "unused b s" by (simp add: inv_def)
    with i show False by (simp add: unused_def)
  qed
  with assms(1) have "batch_ok b s" by (simp add: inv_def)
  then have "waiting b (inflight s) = pending_idx (b_promises (batches s ! b))"
    by (simp add: batch_ok_def batch_good_def)
  with i b show ?thesis by (simp add: pending_idx_mem)
qed

lemma inv_waiting_distinct: "inv s \<Longrightarrow> distinct (waiting b (inflight s))"
proof (cases "b < length (batches s)")
  case True
  assume "inv s"
  with True have "batch_ok b s" by (simp add: inv_def)
  then show ?thesis by (simp add: batch_ok_def batch_good_def pending_idx_distinct)
next
  case False
  assume "inv s"
  with False have "unused b s" by (simp add: inv_def)
  then show ?thesis by (simp add: unused_def)
qed

lemma inv_settle_load:
  assumes "inv s" and k: "k < length (inflight s)" and c: "inflight s ! k = Some (LoadK pr p g)"
    and tr: "\<And>b. progress_calls b tr = []" "\<And>b. settled (AllP b) tr = []"
  shows "inv (s\<lparr>inflight := (inflight s)[k := None], resources := m,
                load_promises := (load_promises s)[pr := Fulfilled v],
                trace := trace s @ tr\<rparr>)"
proof -
  have d: "distinct (List.map_filter load_index (inflight s))"
    using assms(1) by (simp add: inv_def load_waiting_def [symmetric] pending_idx_distinct)
  have lw: "load_waiting ((inflight s)[k := None]) = filter (\<lambda>j. j \<noteq> pr) (load_waiting (inflight s))"
    unfolding load_waiting_def
    using map_filter_update_None [OF k _ d] c by simp
  have w: "waiting b ((inflight s)[k := None]) = waiting b (inflight s)" for b
    unfolding waiting_def
    using k c by (intro map_filter_update_same) simp_all
  show ?thesis
    using assms(1) tr
    by (simp add: inv_def batch_ok_def unused_def lw w pending_idx_update)
qed

lemma inv_settle_batch:
  assumes "inv s" and k: "k < length (inflight s)"
    and c: "inflight s ! k = Some (BatchK b i p ol)"
    and tr: "\<And>c. c \<noteq> b \<Longrightarrow> progress_calls c tr = []"
      "progress_calls b tr = progress_calls b (bump_events b (batches s ! b))"
      "\<And>c. c \<noteq> b \<Longrightarrow> settled (AllP c) tr = []"
      "settled (AllP b) tr = settled (AllP b) (finish_events b i (bump (batches s ! b)))"
  shows "inv (s\<lparr>inflight := (inflight s)[k := None], resources := m,
                batches := (batches s)[b := finish i (bump (batches s ! b))],
                trace := trace s @ tr\<rparr>)"
proof -
  let ?s' = "s\<lparr>inflight := (inflight s)[k := None], resources := m,
                batches := (batches s)[b := finish i (bump (batches s ! b))],
                trace := trace s @ tr\<rparr>"
  note call = inv_batch_call [OF assms(1) k c]
  have lw: "load_waiting ((inflight s)[k := None]) = load_waiting (inflight s)"
    unfolding load_waiting_def
    using k c by (intro map_filter_update_same) simp_all
  have wo: "waiting c ((inflight s)[k := None]) = waiting c (inflight s)" if "c \<noteq> b" for c
    unfolding waiting_def
    using k c that by (intro map_filter_update_same) simp_all
  have d: "distinct (List.map_filter (batch_index b) (inflight s))"
    using inv_waiting_distinct [OF assms(1), of b] by (simp add: waiting_def)
  have wb: "waiting b ((inflight s)[k := None]) = filter (\<lambda>j. j \<noteq> i) (waiting b (inflight s))"
    unfolding waiting_def
    using map_filter_update_None [OF k _ d] c by simp
  have ok: "batch_ok b s"
    using assms(1) call by (simp add: inv_def)
  have "batch_ok b ?s'"
    using batch_good_settle [OF ok [unfolded batch_ok_def], of i b] call
    by (simp add: batch_ok_def wb tr)
  moreover have "batch_ok c ?s'" if "c < length (batches s)" "c \<noteq> b" for c
  proof -
    from that assms(1) have "batch_ok c s" by (simp add: inv_def)
    with that show ?thesis
      by (simp add: batch_ok_def wo tr)
  qed
  moreover have "unused c ?s'" if "length (batches s) \<le> c" for c
  proof -
    from that assms(1) have "unused c s" by (simp add: inv_def)
    moreover from that call have "c \<noteq> b" by auto
    ultimately show ?thesis
      by (simp add: unused_def wo tr)
  qed
  moreover have len: "length (batches ?s') = length (batches s)"
    by simp
  ultimately have "(\<forall>c. c < length (batches ?s') \<longrightarrow> batch_ok c ?s')
      \<and> (\<forall>c. length (batches ?s') \<le> c \<longrightarrow> unused c ?s')"
    unfolding len by blast
  then show ?thesis
    using assms(1) by (simp add: inv_def lw)
qed

section \<open>Every reachable state satisfies the invariant\<close>

lemma loader_success_load:
  assumes "inv s" and "k < length (inflight s)" and "inflight s ! k = Some (LoadK pr p g)"
  shows "loader_success k r s =
     s\<lparr>inflight := (inflight s)[k := None], resources := (resources s)(p \<mapsto> r),
       load_promises := (load_promises s)[pr := Fulfilled r],
       trace := trace s @ [Settled (LoadP pr) r]\<rparr>"
  using assms(2,3) inv_load_call [OF assms]
    on_success_load [of pr "s\<lparr>inflight := (inflight s)[k := None]\<rparr>" p g r]
  by (simp add: loader_success_def del: on_success.simps)

lemma loader_error_load:
  assumes "inv s" and "k < length (inflight s)" and "inflight s ! k = Some (LoadK pr p g)"
  shows "loader_error k e s =
     s\<lparr>inflight := (inflight s)[k := None], resources := (resources s)(p := None),
       load_promises := (load_promises s)[pr := Fulfilled Undefined],
       trace := trace s @ (opt_events g (\<lambda>f. OnError f e) @ [Settled (LoadP pr) Undefined])\<rparr>"
  using assms(2,3) inv_load_call [OF assms]
    on_error_load [of pr "s\<lparr>inflight := (inflight s)[k := None]\<rparr>" p g e]
  by (simp add: loader_error_def del: on_error.simps)

lemma loader_success_batch:
  assumes "inv s" and "k < length (inflight s)" and "inflight s ! k = Some (BatchK b i p ol)"
  shows "loader_success k r s =
     s\<lparr>inflight := (inflight s)[k := None], resources := (resources s)(p \<mapsto> r),
       batches := (batches s)[b := finish i (bump (batches s ! b))],
       trace := trace s @ (bump_events b (batches s ! b) @ opt_events ol (\<lambda>f. OnLoad p f r)
                @ finish_events b i (bump (batches s ! b)))\<rparr>"
  using assms(2,3) inv_batch_call [OF assms]
    on_success_batch [of b "s\<lparr>inflight := (inflight s)[k := None]\<rparr>" i p ol r]
  by (simp add: loader_success_def del: on_success.simps)

lemma loader_error_batch:
  assumes "inv s" and "k < length (inflight s)" and "inflight s ! k = Some (BatchK b i p ol)"
  shows "loader_error k e s =
     s\<lparr>inflight := (inflight s)[k := None], resources := (resources s)(p := None),
       batches := (batches s)[b := finish i (bump (batches s ! b))],
       trace := trace s @ (opt_events (b_onError (batches s ! b)) (\<lambda>f. OnError f e)
                @ bump_events b (batches s ! b) @ finish_events b i (bump (batches s ! b)))\<rparr>"
  using assms(2,3) inv_batch_call [OF assms]
    on_error_batch [of b "s\<lparr>inflight := (inflight s)[k := None]\<rparr>" i p ol e]
  by (simp add: loader_error_def del: on_error.simps)

lemma inv_loader_success:
  assumes "inv s"
  shows "inv (loader_success k r s)"
proof (cases "k < length (inflight s)")
  case False
  with assms show ?thesis by (simp add: loader_success_def)
next
  case True
  show ?thesis
  proof (cases "inflight s ! k")
    case None
    with assms True show ?thesis by (simp add: loader_success_def)
  next
    case (Some c)
    show ?thesis
    proof (cases c)
      case (LoadK pr p g)
      with Some have c: "inflight s ! k = Some (LoadK pr p g)" by simp
      show ?thesis
        unfolding loader_success_load [OF assms True c]
        by (rule inv_settle_load [OF assms True c]) simp_all
    next
      case (BatchK b i p ol)
      with Some have c: "inflight s ! k = Some (BatchK b i p ol)" by simp
      show ?thesis
        unfolding loader_success_batch [OF assms True c]
        by (rule inv_settle_batch [OF assms True c]) simp_all
    qed
  qed
qed

lemma inv_loader_error:
  assumes "inv s"
  shows "inv (loader_error k e s)"
proof (cases "k < length (inflight s)")
  case False
  with assms show ?thesis by (simp add: loader_error_def)
next
  case True
  show ?thesis
  proof (cases "inflight s ! k")
    case None
    with assms True show ?thesis by (simp add: loader_error_def)
  next
    case (Some c)
    show ?thesis
    proof (cases c)
      case (LoadK pr p g)
      with Some have c: "inflight s ! k = Some (LoadK pr p g)" by simp
      show ?thesis
        unfolding loader_error_load [OF assms True c]
        by (rule inv_settle_load [OF assms True c]) simp_all
    next
      case (BatchK b i p ol)
      with Some have c: "inflight s ! k = Some (BatchK b i p ol)" by simp
      show ?thesis
        unfolding loader_error_batch [OF assms True c]
        by (rule inv_settle_batch [OF assms True c]) simp_all
    qed
  qed
qed

lemma inv_step: "inv s \<Longrightarrow> inv (step a s)"
  by (cases a)
     (simp_all add: inv_add inv_remove inv_getLoader inv_removeLoader inv_setOnProgressDefault
        inv_setOnErrorDefault inv_load inv_preload inv_loadPending inv_loader_success
        inv_loader_error)

lemma reachable_inv: "reachable s \<Longrightarrow> inv s"
  by (induction rule: reachable.induct) (simp_all add: inv_init inv_step)

lemma reachable_run: "reachable s \<Longrightarrow> reachable (run as s)"
  by (induction as arbitrary: s) (simp_all add: reachable_step)

section \<open>The counters of a batch after its creation\<close>

lemma finish_bump_fixed:
  "b_total (finish i (bump B)) = b_total B"
  "b_onProgress (finish i (bump B)) = b_onProgress B"
  "b_onError (finish i (bump B)) = b_onError B"
  by (simp_all add: finish_def bump_def split: option.split)

lemma batch_fixed_same: "b < length (batches s) \<Longrightarrow> batches s' = batches s \<Longrightarrow> batch_fixed b s s'"
  by (simp add: batch_fixed_def)

lemma batch_fixed_update:
  "b < length (batches s) \<Longrightarrow> batches s' = (batches s)[c := finish i (bump (batches s ! c))] \<Longrightarrow>
   batch_fixed b s s'"
  by (cases "c = b") (simp_all add: batch_fixed_def finish_bump_fixed)

lemma load_batches: "batches (snd (load T p f g s)) = batches s"
  by (cases "resources s p")
     (simp_all add: load_cached load_fresh call_loader_def emit_def getLoader_def
        split: option.split)

lemma completion_batches:
  assumes "inv s"
  shows "batches (loader_success k r s) = batches s
         \<or> (\<exists>c i. batches (loader_success k r s) = (batches s)[c := finish i (bump (batches s ! c))])"
    and "batches (loader_error k e s) = batches s
         \<or> (\<exists>c i. batches (loader_error k e s) = (batches s)[c := finish i (bump (batches s ! c))])"
proof -
  show "batches (loader_success k r s) = batches s
         \<or> (\<exists>c i. batches (loader_success k r s) = (batches s)[c := finish i (bump (batches s ! c))])"
  proof (cases "k < length (inflight s)")
    case False
    then show ?thesis by (simp add: loader_success_def)
  next
    case True
    show ?thesis
    proof (cases "inflight s ! k")
      case None
      with True show ?thesis by (simp add: loader_success_def)
    next
      case (Some c)
      show ?thesis
      proof (cases c)
        case (LoadK pr p g)
        with Some have "inflight s ! k = Some (LoadK pr p g)" by simp
        from loader_success_load [OF assms True this] show ?thesis by simp
      next
        case (BatchK b i p ol)
        with Some have "inflight s ! k = Some (BatchK b i p ol)" by simp
        from loader_success_batch [OF assms True this] show ?thesis by auto
      qed
    qed
  qed
  show "batches (loader_error k e s) = batches s
         \<or> (\<exists>c i. batches (loader_error k e s) = (batches s)[c := finish i (bump (batches s ! c))])"
  proof (cases "k < length (inflight s)")
    case False
    then show ?thesis by (simp add: loader_error_def)
  next
    case True
    show ?thesis
    proof (cases "inflight s ! k")
      case None
      with True show ?thesis by (simp add: loader_error_def)
    next
      case (Some c)
      show ?thesis
      proof (cases c)
        case (LoadK pr p g)
        with Some have "inflight s ! k = Some (LoadK pr p g)" by simp
        from loader_error_load [OF assms True this] show ?thesis by simp
      next
        case (BatchK b i p ol)
        with Some have "inflight s ! k = Some (BatchK b i p ol)" by simp
        from loader_error_batch [OF assms True this] show ?thesis by auto
      qed
    qed
  qed
qed

lemma step_batch_fixed:
  assumes "inv s" and b: "b < length (batches s)"
  shows "batch_fixed b s (step a s)"
proof (cases a)
  case (Success k r)
  with completion_batches(1) [OF assms(1), of k r] b show ?thesis
    by (auto intro: batch_fixed_same batch_fixed_update)
next
  case (Failure k e)
  with completion_batches(2) [OF assms(1), of k e] b show ?thesis
    by (auto intro: batch_fixed_same batch_fixed_update)
next
  case (LoadPending config)
  with b show ?thesis
    by (simp add: batch_fixed_def loadPending_batches nth_append)
next
  case (Load T p f g)
  with b show ?thesis by (simp add: batch_fixed_same load_batches)
next
  case (Remove ps)
  with b show ?thesis by (simp add: batch_fixed_same remove_frame)
next
  case (GetLoader T)
  with b show ?thesis
    by (simp add: batch_fixed_same getLoader_def emit_def split: option.split)
qed (use b in \<open>simp_all add: batch_fixed_same add_def removeLoader_def setOnProgressDefault_def
      setOnErrorDefault_def preload_def\<close>)

lemma run_batch_fixed:
  "reachable s \<Longrightarrow> b < length (batches s) \<Longrightarrow> batch_fixed b s (run as s)"
proof (induction as arbitrary: s)
  case Nil
  then show ?case by (simp add: batch_fixed_def)
next
  case (Cons a as)
  have 1: "batch_fixed b s (step a s)"
    using Cons.prems by (intro step_batch_fixed reachable_inv)
  then have "b < length (batches (step a s))" by (simp add: batch_fixed_def)
  with Cons.prems(1) have "batch_fixed b (step a s) (run as (step a s))"
    by (intro Cons.IH reachable_step)
  with 1 show ?case by (simp add: batch_fixed_def)
qed

section \<open>Progress ratios\<close>

lemma ratios_increasing:
  assumes "0 < N"
  shows "sorted_wrt js_less (map (\<lambda>k. Num (of_nat k / of_nat N)) [1..<Suc n])"
proof -
  have "sorted_wrt (\<lambda>a b. js_less (Num (of_nat a / of_nat N)) (Num (of_nat b / of_nat N))) [1..<Suc n]"
  proof (rule sorted_wrt_mono_rel [of _ "(<)"])
    show "sorted_wrt (<) [1..<Suc n]" by (rule sorted_wrt_upt)
    fix x y :: nat
    assume "x < y"
    then show "js_less (Num (of_nat x / of_nat N)) (Num (of_nat y / of_nat N))"
      using assms by (simp add: divide_strict_right_mono)
  qed
  then show ?thesis by (simp add: sorted_wrt_map del: upt_Suc)
qed

lemma reachable_loadPending_run:
  "reachable s0 \<Longrightarrow> reachable (run acts (snd (loadPending config s0)))"
  using reachable_run [OF reachable_step [of s0 "LoadPending config"], of acts] by simp

lemma batch_after_run:
  fixes s0 :: state and acts :: "action list" and config :: loading_config
  assumes r: "reachable s0"
  defines "b \<equiv> length (batches s0)"
    and "s2 \<equiv> run acts (snd (loadPending config s0))"
  shows "b < length (batches s2)"
    and "b_total (batches s2 ! b) = length (fresh s0)"
    and "b_onProgress (batches s2 ! b) =
           (case onProgress config of Some h \<Rightarrow> Some h | None \<Rightarrow> onProgress_default s0)"
    and "b_onError (batches s2 ! b) =
           (case onError config of Some h \<Rightarrow> Some h | None \<Rightarrow> onError_default s0)"
    and "batch_ok b s2"
proof -
  let ?s1 = "snd (loadPending config s0)"
  have r1: "reachable ?s1"
    using reachable_step [OF r, of "LoadPending config"] by simp
  have b1: "b < length (batches ?s1)"
    by (simp add: b_def loadPending_batches)
  have fx: "batch_fixed b ?s1 s2"
    unfolding s2_def by (rule run_batch_fixed [OF r1 b1])
  have nb: "batches ?s1 ! b = new_batch config s0"
    by (simp add: b_def loadPending_batches)
  show "b < length (batches s2)" using fx by (simp add: batch_fixed_def)
  show "b_total (batches s2 ! b) = length (fresh s0)"
    using fx by (simp add: batch_fixed_def nb new_batch_def)
  show "b_onProgress (batches s2 ! b) =
           (case onProgress config of Some h \<Rightarrow> Some h | None \<Rightarrow> onProgress_default s0)"
    using fx by (simp add: batch_fixed_def nb new_batch_def)
  show "b_onError (batches s2 ! b) =
           (case onError config of Some h \<Rightarrow> Some h | None \<Rightarrow> onError_default s0)"
    using fx by (simp add: batch_fixed_def nb new_batch_def)
  have "inv s2"
    unfolding s2_def by (rule reachable_inv [OF reachable_loadPending_run [OF r]])
  with \<open>b < length (batches s2)\<close> show "batch_ok b s2" by (simp add: inv_def)
qed

text \<open>
  C1. Take a reachable state, a call of \<^verbatim>\<open>loadPending\<close> in it whose effective progress
  callback (the one of the configuration, else the default) is \<open>f\<close>, and any later run of
  the system. Let \<open>N\<close> be the counter \<^verbatim>\<open>total\<close> of the call, which is the number of loader
  calls it has made. The call itself invokes no progress callback. At every later moment
  the progress callback has been invoked for this call exactly once per loader call that
  has called back (success or error), with the values \<open>1/N, 2/N, \<dots>\<close> in that order, which
  is strictly increasing. When all \<open>N > 0\<close> loader calls have called back, the callback
  has been invoked \<open>N\<close> times and the last value is exactly 1.
\<close>

theorem progress_ratio:
  fixes s0 :: state and acts :: "action list" and config :: loading_config
  assumes r: "reachable s0"
    and f: "(case onProgress config of Some h \<Rightarrow> Some h | None \<Rightarrow> onProgress_default s0) = Some f"
  defines "b \<equiv> length (batches s0)"
    and "s1 \<equiv> snd (loadPending config s0)"
  defines "s2 \<equiv> run acts s1"
    and "N \<equiv> b_total (batches s1 ! b)"
  defines "n \<equiv> N - length (waiting b (inflight s2))"
  shows "waiting b (inflight s1) = [0..<N]
       \<and> progress_calls b (trace s1) = []
       \<and> length (waiting b (inflight s2)) \<le> N
       \<and> progress_calls b (trace s2) = map (\<lambda>k. (f, Num (of_nat k / of_nat N))) [1..<Suc n]
       \<and> sorted_wrt js_less (map snd (progress_calls b (trace s2)))
       \<and> (waiting b (inflight s2) = [] \<longrightarrow> 0 < N \<longrightarrow>
            length (progress_calls b (trace s2)) = N
            \<and> last (progress_calls b (trace s2)) = (f, Num 1))"
proof -
  have i0: "inv s0" by (rule reachable_inv [OF r])
  then have u: "unused b s0" by (simp add: inv_def b_def)
  have N: "N = length (fresh s0)"
    by (simp add: N_def s1_def b_def loadPending_total)
  have w1: "waiting b (inflight s1) = [0..<N]"
    using u by (simp add: s1_def b_def loadPending_waiting unused_def N)
  have p1: "progress_calls b (trace s1) = []"
    using u by (simp add: s1_def loadPending_progress_calls unused_def)
  note ba = batch_after_run [OF r, of acts config, folded b_def s1_def s2_def]
  from ba(5) ba(3) f ba(2) N
  have sum: "b_progress (batches s2 ! b) + length (waiting b (inflight s2)) = N"
    and pc: "progress_calls b (trace s2)
             = map (\<lambda>k. (f, js_div k N)) [1..<Suc (b_progress (batches s2 ! b))]"
    by (auto simp add: batch_ok_def batch_good_def simp del: upt_Suc)
  from sum have n: "b_progress (batches s2 ! b) = n" and le: "length (waiting b (inflight s2)) \<le> N"
    by (simp_all add: n_def)
  have nN: "n \<le> N" by (simp add: n_def)
  have pc': "progress_calls b (trace s2) = map (\<lambda>k. (f, Num (of_nat k / of_nat N))) [1..<Suc n]"
    unfolding pc n
  proof (rule map_cong [OF refl])
    fix k assume "k \<in> set [1..<Suc n]"
    with nN have "N \<noteq> 0" by auto
    then show "(f, js_div k N) = (f, Num (of_nat k / of_nat N))"
      by (simp add: js_div_def)
  qed
  have so: "sorted_wrt js_less (map snd (progress_calls b (trace s2)))"
  proof (cases "N = 0")
    case True
    with nN show ?thesis by (simp add: pc')
  next
    case False
    then have "0 < N" by simp
    from ratios_increasing [OF this, of n] show ?thesis
      by (simp add: pc' comp_def del: upt_Suc)
  qed
  have fin: "length (progress_calls b (trace s2)) = N
            \<and> last (progress_calls b (trace s2)) = (f, Num 1)"
    if "waiting b (inflight s2) = []" "0 < N"
  proof -
    from that have "n = N" by (simp add: n_def)
    with that(2) show ?thesis
      by (simp add: pc')
  qed
  from w1 p1 le pc' so fin show ?thesis by blast
qed

theorem progress_ratio_witness:
  "reachable (step (Preload 3 [Path ''a'', Config ''b'' (Some 9), Path ''a'']) init)
   \<and> b_total (batches (snd (loadPending \<lparr>onProgress = Some 7, onError = Some 8\<rparr>
        (step (Preload 3 [Path ''a'', Config ''b'' (Some 9), Path ''a'']) init))) ! 0) = 2
   \<and> progress_calls 0 (trace (run [Success 1 (Obj 5)]
        (snd (loadPending \<lparr>onProgress = Some 7, onError = Some 8\<rparr>
          (step (Preload 3 [Path ''a'', Config ''b'' (Some 9), Path ''a'']) init)))))
      = [(7, Num (1 / 2))]
   \<and> waiting 0 (inflight (run [Success 1 (Obj 5), Failure 0 (Obj 6)]
        (snd (loadPending \<lparr>onProgress = Some 7, onError = Some 8\<rparr>
          (step (Preload 3 [Path ''a'', Config ''b'' (Some 9), Path ''a'']) init))))) = []
   \<and> progress_calls 0 (trace (run [Success 1 (Obj 5), Failure 0 (Obj 6)]
        (snd (loadPending \<lparr>onProgress = Some 7, onError = Some 8\<rparr>
          (step (Preload 3 [Path ''a'', Config ''b'' (Some 9), Path ''a'']) init)))))
      = [(7, Num (1 / 2)), (7, Num 1)]
   \<and> last (progress_calls 0 (trace (run [Success 1 (Obj 5), Failure 0 (Obj 6)]
        (snd (loadPending \<lparr>onProgress = Some 7, onError = Some 8\<rparr>
          (step (Preload 3 [Path ''a'', Config ''b'' (Some 9), Path ''a'']) init))))))
      = (7, Num 1)"
proof -
  let ?s0 = "step (Preload 3 [Path ''a'', Config ''b'' (Some 9), Path ''a'']) init"
  let ?cfg = "\<lparr>onProgress = Some 7, onError = Some 8\<rparr>"
  have r: "reachable ?s0"
    by (rule reachable_step [OF reachable_init])
  have f: "(case onProgress ?cfg of Some h \<Rightarrow> Some h | None \<Rightarrow> onProgress_default ?s0) = Some 7"
    by simp
  have ev: "length (batches ?s0) = 0"
    "b_total (batches (snd (loadPending ?cfg ?s0)) ! 0) = 2"
    "waiting 0 (inflight (run [Success 1 (Obj 5)] (snd (loadPending ?cfg ?s0)))) = [0]"
    "waiting 0 (inflight (run [Success 1 (Obj 5), Failure 0 (Obj 6)] (snd (loadPending ?cfg ?s0)))) = []"
    by code_simp+
  show ?thesis
    using r ev progress_ratio [OF r f, of "[Success 1 (Obj 5)]", unfolded ev]
      progress_ratio [OF r f, of "[Success 1 (Obj 5), Failure 0 (Obj 6)]", unfolded ev]
    by (simp add: upt_conv_Cons)
qed

section \<open>Settlement and errors\<close>



text \<open>
  C4. In a reachable state, let loader call \<open>k\<close> be outstanding for a \<^verbatim>\<open>load\<close> of path \<open>p\<close>
  with error callback \<open>g\<close> and promise \<open>pr\<close>. When the loader reports error \<open>e\<close>, the key
  \<open>p\<close> is removed from the cache, so \<^verbatim>\<open>get\<close> returns \<^verbatim>\<open>undefined\<close>; \<open>g\<close>, if given, is
  called once with \<open>e\<close>; the promise, pending until then, is fulfilled with \<^verbatim>\<open>undefined\<close>
  and settles once; the loader call is no longer outstanding. Such a call is what
  \<^verbatim>\<open>load\<close> registers for a path that is not in the cache.
\<close>

theorem load_error_swallowed:
  assumes r: "reachable s" and k: "k < length (inflight s)"
    and c: "inflight s ! k = Some (LoadK pr p g)"
  shows "resources (loader_error k e s) p = None
       \<and> get p (loader_error k e s) = Undefined
       \<and> error_calls (trace (loader_error k e s))
           = error_calls (trace s) @ (case g of None \<Rightarrow> [] | Some h \<Rightarrow> [(h, e)])
       \<and> pr < length (load_promises s)
       \<and> load_promises s ! pr = Pending
       \<and> load_promises (loader_error k e s) = (load_promises s)[pr := Fulfilled Undefined]
       \<and> settled (LoadP pr) (trace (loader_error k e s))
           = settled (LoadP pr) (trace s) @ [Undefined]
       \<and> inflight (loader_error k e s) = (inflight s)[k := None]
       \<and> (resources s' p' = None \<longrightarrow>
            inflight (snd (load T p' f' g' s'))
              = inflight s' @ [Some (LoadK (length (load_promises s')) p' g')])"
proof -
  have i: "inv s" by (rule reachable_inv [OF r])
  have "inflight (snd (load T p' f' g' s'))
              = inflight s' @ [Some (LoadK (length (load_promises s')) p' g')]"
    if "resources s' p' = None"
    using that
    by (simp add: load_fresh call_loader_def emit_def getLoader_def split: option.split)
  then show ?thesis
    using inv_load_call [OF i k c]
    by (simp add: loader_error_load [OF i k c] get_def)
qed

theorem load_error_swallowed_witness:
  "reachable (run [Load 3 ''a'' None (Some 8)] init)
   \<and> inflight (run [Load 3 ''a'' None (Some 8)] init) ! 0 = Some (LoadK 0 ''a'' (Some 8))
   \<and> get ''a'' (run [Load 3 ''a'' None (Some 8)] init) = Null
   \<and> resources (loader_error 0 (Obj 6) (run [Load 3 ''a'' None (Some 8)] init)) ''a'' = None
   \<and> get ''a'' (loader_error 0 (Obj 6) (run [Load 3 ''a'' None (Some 8)] init)) = Undefined
   \<and> error_calls (trace (loader_error 0 (Obj 6) (run [Load 3 ''a'' None (Some 8)] init)))
      = [(8, Obj 6)]
   \<and> load_promises (loader_error 0 (Obj 6) (run [Load 3 ''a'' None (Some 8)] init))
      = [Fulfilled Undefined]
   \<and> settled (LoadP 0) (trace (loader_error 0 (Obj 6) (run [Load 3 ''a'' None (Some 8)] init)))
      = [Undefined]
   \<and> inflight (snd (load 3 ''a'' None (Some 8) init)) = [Some (LoadK 0 ''a'' (Some 8))]"
proof -
  let ?s = "run [Load 3 ''a'' None (Some 8)] init"
  have r: "reachable ?s"
    by (rule reachable_run [OF reachable_init])
  have k: "0 < length (inflight ?s)" and c: "inflight ?s ! 0 = Some (LoadK 0 ''a'' (Some 8))"
    by code_simp+
  have ev: "error_calls (trace ?s) = []" "load_promises ?s = [Pending]"
    "settled (LoadP 0) (trace ?s) = []" "get ''a'' ?s = Null"
    "resources init ''a'' = None" "inflight init = []" "load_promises init = []"
    by code_simp+
  show ?thesis
    using r c ev load_error_swallowed [OF r k c, of "Obj 6" init "''a''" 3 None "Some 8", unfolded ev]
    by simp
qed



section \<open>The loader registry\<close>

lemma constructions_append [simp]:
  "constructions T (xs @ ys) = constructions T xs @ constructions T ys"
  by (simp add: constructions_def map_filter_append)

lemma constructions_Nil [simp]: "constructions T [] = []"
  by (simp add: constructions_def)

lemma constructions_single [simp]:
  "constructions T [e] = (case constructed_of T e of None \<Rightarrow> [] | Some l \<Rightarrow> [l])"
  by (simp add: constructions_def split: option.split)

lemma events_no_construction [simp]:
  "constructions T (opt_events f (\<lambda>h. OnLoad p h r)) = []"
  "constructions T (opt_events f (\<lambda>h. OnError h e)) = []"
  "constructions T (bump_events b B) = []"
  "constructions T (finish_events b i B) = []"
  by (simp_all add: opt_events_def finish_events_def bump_events_def split: option.split)

lemma reg_grow_refl: "reg_grow s s"
  by (simp add: reg_grow_def)

lemma reg_grow_trans: "reg_grow s s' \<Longrightarrow> reg_grow s' s'' \<Longrightarrow> reg_grow s s''"
  unfolding reg_grow_def by (meson le_trans)

lemma reg_keep_refl: "reg_keep T s s"
  by (simp add: reg_keep_def)

lemma reg_keep_trans: "reg_keep T s s' \<Longrightarrow> reg_keep T s' s'' \<Longrightarrow> reg_keep T s s''"
  by (simp add: reg_keep_def)

lemma reg_same:
  assumes "loaders s' = loaders s" and "next_loader s' = next_loader s"
    and "\<And>T. constructions T (trace s') = constructions T (trace s)"
  shows "reg_grow s s'" and "reg_keep T s s'"
  using assms by (simp_all add: reg_grow_def reg_keep_def loaders_ok_def)

lemma reg_getLoader: "reg_grow s (snd (getLoader U s))" "reg_keep T s (snd (getLoader U s))"
  by (auto simp add: reg_grow_def reg_keep_def loaders_ok_def getLoader_def emit_def less_Suc_eq
        split: option.split)

lemma reg_rel_entry: "reg_rel T (B, s) (load_entry b l e (B, s))"
proof (cases "resources s (path_of e)")
  case None
  then show ?thesis
    unfolding reg_rel_def
    by (intro conjI reg_same) (simp_all add: load_entry_fresh call_loader_def emit_def)
next
  case (Some v)
  then show ?thesis
    unfolding reg_rel_def
    by (intro conjI reg_same) (simp_all add: load_entry_cached call_opt_eq opt_events_def split: option.split)
qed

lemma reg_rel_drain: "reg_rel T x (drain b x)"
proof (rule drain_rel [where R = "reg_rel T"])
  show "reg_rel T x x" for x by (simp add: reg_rel_def reg_grow_refl reg_keep_refl)
  show "reg_rel T x z" if "reg_rel T x y" "reg_rel T y z" for x y z
    using that unfolding reg_rel_def by (blast intro: reg_grow_trans reg_keep_trans)
  show "reg_rel T (B, s) (B, s\<lparr>pending := q\<rparr>)" for B s q
    unfolding reg_rel_def by (intro conjI reg_same) simp_all
  show "reg_rel T (B, s) (B, snd (getLoader U s))" for B s U
    by (simp add: reg_rel_def reg_getLoader)
  show "reg_rel T (B, s) (load_entry b l e (B, s))" for B s l e
    by (rule reg_rel_entry)
qed

lemma reg_loadPending:
  "reg_grow s (snd (loadPending config s))" "reg_keep T s (snd (loadPending config s))"
proof -
  let ?d = "drain (length (batches s)) (batch0 config s, s)"
  obtain B s1 where d: "?d = (B, s1)" by (cases ?d)
  have 1: "reg_grow s s1 \<and> reg_keep T s s1"
    using reg_rel_drain [of T "(batch0 config s, s)" "length (batches s)"] d
    by (simp add: reg_rel_def)
  have 2: "reg_grow s1 (snd (loadPending config s)) \<and> reg_keep T s1 (snd (loadPending config s))"
    by (intro conjI reg_same) (simp_all add: loadPending_state [OF d])
  from 1 2 show "reg_grow s (snd (loadPending config s))" "reg_keep T s (snd (loadPending config s))"
    by (blast intro: reg_grow_trans reg_keep_trans)+
qed

lemma reg_load: "reg_grow s (snd (load U p f g s))" "reg_keep T s (snd (load U p f g s))"
proof -
  have "reg_grow s (snd (load U p f g s)) \<and> reg_keep T s (snd (load U p f g s))"
  proof (cases "resources s p")
    case (Some v)
    then show ?thesis by (intro conjI reg_same) (simp_all add: load_cached)
  next
    case None
    have "reg_grow (snd (getLoader U s)) (snd (load U p f g s))
          \<and> reg_keep T (snd (getLoader U s)) (snd (load U p f g s))"
      by (intro conjI reg_same) (simp_all add: load_fresh [OF None] call_loader_def emit_def)
    with reg_getLoader(1) [of s U] reg_getLoader(2) [of T s U] show ?thesis
      by (blast intro: reg_grow_trans reg_keep_trans)
  qed
  then show "reg_grow s (snd (load U p f g s))" "reg_keep T s (snd (load U p f g s))"
    by simp_all
qed

lemma reg_completion:
  assumes "inv s"
  shows "reg_grow s (loader_success k r s) \<and> reg_keep T s (loader_success k r s)"
    and "reg_grow s (loader_error k e s) \<and> reg_keep T s (loader_error k e s)"
proof -
  show "reg_grow s (loader_success k r s) \<and> reg_keep T s (loader_success k r s)"
  proof (cases "k < length (inflight s)")
    case False
    then show ?thesis by (simp add: loader_success_def reg_grow_refl reg_keep_refl)
  next
    case True
    show ?thesis
    proof (cases "inflight s ! k")
      case None
      with True show ?thesis by (simp add: loader_success_def reg_grow_refl reg_keep_refl)
    next
      case (Some c)
      show ?thesis
      proof (cases c)
        case (LoadK pr p g)
        with Some have "inflight s ! k = Some (LoadK pr p g)" by simp
        from loader_success_load [OF assms True this] show ?thesis
          by (intro conjI reg_same) simp_all
      next
        case (BatchK b i p ol)
        with Some have "inflight s ! k = Some (BatchK b i p ol)" by simp
        from loader_success_batch [OF assms True this] show ?thesis
          by (intro conjI reg_same) simp_all
      qed
    qed
  qed
  show "reg_grow s (loader_error k e s) \<and> reg_keep T s (loader_error k e s)"
  proof (cases "k < length (inflight s)")
    case False
    then show ?thesis by (simp add: loader_error_def reg_grow_refl reg_keep_refl)
  next
    case True
    show ?thesis
    proof (cases "inflight s ! k")
      case None
      with True show ?thesis by (simp add: loader_error_def reg_grow_refl reg_keep_refl)
    next
      case (Some c)
      show ?thesis
      proof (cases c)
        case (LoadK pr p g)
        with Some have "inflight s ! k = Some (LoadK pr p g)" by simp
        from loader_error_load [OF assms True this] show ?thesis
          by (intro conjI reg_same) simp_all
      next
        case (BatchK b i p ol)
        with Some have "inflight s ! k = Some (BatchK b i p ol)" by simp
        from loader_error_batch [OF assms True this] show ?thesis
          by (intro conjI reg_same) simp_all
      qed
    qed
  qed
qed

lemma step_reg_grow:
  assumes "inv s"
  shows "reg_grow s (step a s)"
proof (cases a)
  case (RemoveLoader U)
  then show ?thesis by (simp add: reg_grow_def loaders_ok_def removeLoader_def)
next
  case (Remove ps)
  then show ?thesis using reg_same(1) [of "remove ps s" s] by (simp add: remove_frame)
qed (simp_all add: reg_getLoader reg_load reg_loadPending reg_completion [OF assms]
       reg_same(1) add_def setOnProgressDefault_def setOnErrorDefault_def preload_def)

lemma step_reg_keep:
  assumes "inv s" and "a \<noteq> RemoveLoader T"
  shows "reg_keep T s (step a s)"
proof (cases a)
  case (RemoveLoader U)
  with assms(2) show ?thesis by (simp add: reg_keep_def removeLoader_def)
next
  case (Remove ps)
  then show ?thesis using reg_same(2) [of "remove ps s" s] by (simp add: remove_frame)
qed (simp_all add: reg_getLoader reg_load reg_loadPending reg_completion [OF assms(1)]
       reg_same(2) add_def setOnProgressDefault_def setOnErrorDefault_def preload_def)

lemma run_reg_grow: "reachable s \<Longrightarrow> reg_grow s (run as s)"
proof (induction as arbitrary: s)
  case Nil
  show ?case by (simp add: reg_grow_refl)
next
  case (Cons a as)
  have "reg_grow s (step a s)" by (rule step_reg_grow [OF reachable_inv [OF Cons.prems]])
  moreover have "reg_grow (step a s) (run as (step a s))"
    by (rule Cons.IH [OF reachable_step [OF Cons.prems]])
  ultimately show ?case by (simp add: reg_grow_trans)
qed

lemma run_reg_keep:
  "reachable s \<Longrightarrow> \<forall>a \<in> set as. a \<noteq> RemoveLoader T \<Longrightarrow> reg_keep T s (run as s)"
proof (induction as arbitrary: s)
  case Nil
  show ?case by (simp add: reg_keep_refl)
next
  case (Cons a as)
  have "reg_keep T s (step a s)"
    using Cons.prems by (intro step_reg_keep reachable_inv) simp_all
  moreover have "reg_keep T (step a s) (run as (step a s))"
    using Cons.prems by (intro Cons.IH reachable_step) simp_all
  ultimately show ?case by (simp add: reg_keep_trans [of T s "step a s"])
qed

lemma reachable_loaders_ok: "reachable s \<Longrightarrow> loaders_ok s"
proof (induction rule: reachable.induct)
  case reachable_init
  show ?case by (simp add: loaders_ok_def init_def)
next
  case (reachable_step s a)
  with step_reg_grow [OF reachable_inv [OF reachable_step.hyps], of a] show ?case
    by (simp add: reg_grow_def)
qed

text \<open>
  C6. In a reachable state, \<^verbatim>\<open>getLoader(T)\<close> followed by any run without
  \<^verbatim>\<open>removeLoader(T)\<close> and a second \<^verbatim>\<open>getLoader(T)\<close> returns the same instance twice, and
  an instance of \<open>T\<close> is constructed at most once on the way (by the first call, when the
  registry had none). After \<^verbatim>\<open>removeLoader(T)\<close> the next \<^verbatim>\<open>getLoader(T)\<close> constructs a new
  instance; whatever runs in between, the instance returned later was constructed after
  the removal and differs from the first one. \<^verbatim>\<open>removeLoader\<close> of a type that is not
  registered leaves the state as it is.
\<close>

theorem loader_memoized:
  fixes s :: state and T :: loader_type and acts acts' :: "action list"
  assumes r: "reachable s" and na: "\<forall>a \<in> set acts. a \<noteq> RemoveLoader T"
  defines "s1 \<equiv> snd (getLoader T s)"
  defines "s2 \<equiv> run acts s1"
  defines "s3 \<equiv> run acts' (removeLoader T s2)"
  shows "fst (getLoader T s2) = fst (getLoader T s)
       \<and> constructions T (trace (snd (getLoader T s2))) = constructions T (trace s1)
       \<and> constructions T (trace s1)
           = constructions T (trace s) @ (if loaders s T = None then [fst (getLoader T s)] else [])
       \<and> fst (getLoader T (removeLoader T s2)) = next_loader s2
       \<and> constructions T (trace (snd (getLoader T (removeLoader T s2))))
           = constructions T (trace s2) @ [next_loader s2]
       \<and> fst (getLoader T s) < next_loader s2
       \<and> next_loader s2 \<le> fst (getLoader T s3)
       \<and> fst (getLoader T s3) \<noteq> fst (getLoader T s)
       \<and> (loaders s T = None \<longrightarrow> removeLoader T s = s)"
proof -
  let ?l = "fst (getLoader T s)"
  have r1: "reachable s1"
    using reachable_step [OF r, of "GetLoader T"] by (simp add: s1_def)
  have r2: "reachable s2"
    unfolding s2_def by (rule reachable_run [OF r1])
  have r2': "reachable (removeLoader T s2)"
    using reachable_step [OF r2, of "RemoveLoader T"] by simp
  have l1: "loaders s1 T = Some ?l"
    by (simp add: s1_def getLoader_def emit_def split: option.split)
  have c1: "constructions T (trace s1)
           = constructions T (trace s) @ (if loaders s T = None then [?l] else [])"
    by (simp add: s1_def getLoader_def emit_def split: option.split)
  have keep: "reg_keep T s1 s2"
    unfolding s2_def by (rule run_reg_keep [OF r1 na])
  with l1 have l2: "loaders s2 T = Some ?l"
    and c2: "constructions T (trace s2) = constructions T (trace s1)"
    by (simp_all add: reg_keep_def)
  from l2 have g2: "getLoader T s2 = (?l, s2)"
    by (simp add: getLoader_def)
  have lt: "?l < next_loader s2"
    using reachable_loaders_ok [OF r2] l2 by (simp add: loaders_ok_def)
  have g3: "getLoader T (removeLoader T s2) =
      (next_loader s2,
       emit (Constructed T (next_loader s2))
         (s2\<lparr>loaders := ((loaders s2)(T := None))(T \<mapsto> next_loader s2),
             next_loader := Suc (next_loader s2)\<rparr>))"
    by (simp add: getLoader_def removeLoader_def)
  have grow: "reg_grow (removeLoader T s2) s3"
    unfolding s3_def by (rule run_reg_grow [OF r2'])
  have nl: "next_loader (removeLoader T s2) = next_loader s2"
    and lr: "loaders (removeLoader T s2) T = None"
    by (simp_all add: removeLoader_def)
  have ge: "next_loader s2 \<le> fst (getLoader T s3)"
  proof (cases "loaders s3 T")
    case None
    with grow nl show ?thesis by (simp add: getLoader_def reg_grow_def)
  next
    case (Some l)
    with grow lr nl have "next_loader s2 \<le> l"
      unfolding reg_grow_def by (metis option.distinct(1))
    with Some show ?thesis by (simp add: getLoader_def)
  qed
  have idem: "removeLoader T s = s" if "loaders s T = None"
  proof -
    from that have "(loaders s)(T := None) = loaders s" by (simp add: fun_upd_idem_iff)
    then show ?thesis by (simp add: removeLoader_def)
  qed
  from g2 c2 c1 g3 lt ge idem show ?thesis
    by (simp add: emit_def)
qed

theorem loader_memoized_witness:
  "reachable init
   \<and> fst (getLoader 3 init) = 0
   \<and> fst (getLoader 3 (run [Load 3 ''a'' None None, GetLoader 4] (snd (getLoader 3 init)))) = 0
   \<and> constructions 3 (trace (snd (getLoader 3
        (run [Load 3 ''a'' None None, GetLoader 4] (snd (getLoader 3 init)))))) = [0]
   \<and> next_loader (run [Load 3 ''a'' None None, GetLoader 4] (snd (getLoader 3 init))) = 2
   \<and> fst (getLoader 3 (removeLoader 3
        (run [Load 3 ''a'' None None, GetLoader 4] (snd (getLoader 3 init))))) = 2
   \<and> 2 \<le> fst (getLoader 3 (run [GetLoader 4, RemoveLoader 4, GetLoader 4] (removeLoader 3
        (run [Load 3 ''a'' None None, GetLoader 4] (snd (getLoader 3 init))))))
   \<and> fst (getLoader 3 (run [GetLoader 4, RemoveLoader 4, GetLoader 4] (removeLoader 3
        (run [Load 3 ''a'' None None, GetLoader 4] (snd (getLoader 3 init)))))) \<noteq> 0
   \<and> loaders init 3 = None
   \<and> removeLoader 3 init = init"
proof -
  have na: "\<forall>a \<in> set [Load 3 ''a'' None None, GetLoader 4]. a \<noteq> RemoveLoader 3"
    by simp
  have ev: "fst (getLoader 3 init) = 0" "loaders init 3 = None"
    "next_loader (run [Load 3 ''a'' None None, GetLoader 4] (snd (getLoader 3 init))) = 2"
    "constructions 3 (trace init) = []"
    by code_simp+
  show ?thesis
    using ev reachable_init
      loader_memoized [OF reachable_init na, of "[GetLoader 4, RemoveLoader 4, GetLoader 4]"]
    by simp
qed

end
